theory Spec2Isabelle
  imports Main "HOL-Library.Word" "HOL-Library.Sublist"
begin

section \<open>Data model\<close>

text \<open>
  The TLS transport of \<^verbatim>\<open>src/impl/tlstransport.cpp\<close> sits between a lower byte
  transport and an upper receiver. The file holds three variants of the class, selected at
  build time (GnuTLS, MbedTLS, OpenSSL); each variant is embedded under its own name, with
  the suffix of its backend, and \<^verbatim>\<open>enqueueRecv\<close>, which the source has once, is
  embedded once.
\<close>

type_synonym byte = "8 word"
type_synonym message = "byte list"

text \<open>A \<^verbatim>\<open>message_ptr\<close> may be null: \<open>None\<close> is \<^verbatim>\<open>nullptr\<close>.\<close>

type_synonym message_ptr = "message option"

text \<open>
  Modelled from the spec: the enumeration \<^verbatim>\<open>State\<close> is declared with the base class
  \<^verbatim>\<open>Transport\<close>, which is not part of the source file; these are the values the source
  names.
\<close>

datatype State = Disconnected | Connecting | Connected | Failed

text \<open>
  The exceptions of the source: the two \<^verbatim>\<open>std::runtime_error\<close> of \<^verbatim>\<open>send\<close>,
  the one thrown by a backend's \<^verbatim>\<open>check\<close> helper on a fatal code, and a fault of the
  lower transport's send.
\<close>

datatype error = TlsNotOpen | TlsSendFailed | TlsCheckFailed | LowerFault

text \<open>What the lower transport's \<^verbatim>\<open>send\<close> does with one message.\<close>

datatype reply = Accepted | Refused | Raises

record transport =
  state :: State
  notified :: "State list"
  alive :: bool
  mPendingRecvCount :: int
  poolTasks :: nat
  registered :: bool
  mIncomingQueue :: "message list"
  queueRunning :: bool
  mIncomingMessage :: message_ptr
  mIncomingMessagePosition :: nat
  mOutgoingResult :: bool
  mInBio :: message
  mOutBio :: message
  received :: "message_ptr list"
  sent :: "message_ptr list"
  lowerSend :: "nat \<Rightarrow> reply"

text \<open>
  \<open>notified\<close> is the sequence of states reported to the state observer, \<open>received\<close> the
  sequence of messages delivered upward (\<open>None\<close> is the end-of-stream signal), \<open>sent\<close> the
  sequence of messages handed to the lower transport, \<open>poolTasks\<close> the number of
  \<^verbatim>\<open>doRecv\<close> tasks of this instance waiting in the thread pool, \<open>alive\<close> whether
  \<^verbatim>\<open>weak_from_this().lock()\<close> succeeds, and \<open>lowerSend k\<close> the lower transport's answer
  to the \<open>k\<close>-th message handed to it. \<open>mInBio\<close> and \<open>mOutBio\<close> are the memory BIOs of
  the OpenSSL variant.
\<close>

definition initial :: "bool \<Rightarrow> bool \<Rightarrow> (nat \<Rightarrow> reply) \<Rightarrow> transport" where
  "initial a r l =
     \<lparr> state = Disconnected, notified = [], alive = a, mPendingRecvCount = 0, poolTasks = 0,
       registered = False, mIncomingQueue = [], queueRunning = True,
       mIncomingMessage = None, mIncomingMessagePosition = 0, mOutgoingResult = r,
       mInBio = [], mOutBio = [], received = [], sent = [], lowerSend = l \<rparr>"

section \<open>The base class and the queue\<close>

text \<open>
  Modelled from the spec: \<^verbatim>\<open>Transport::changeState\<close>, \<^verbatim>\<open>Transport::recv\<close>,
  \<^verbatim>\<open>Transport::outgoing\<close>, \<^verbatim>\<open>registerIncoming\<close> and \<^verbatim>\<open>unregisterIncoming\<close> belong to
  the base class, which is not part of the source file. A transition fires one observer
  notification; an upward delivery hands the message (or the end-of-stream sentinel) to
  the receiver; the lower side exposes \<^verbatim>\<open>send(bytes) -> bool\<close>, which may also fail
  with an exception, as the handler of the GnuTLS write callback expects.
\<close>

definition changeState :: "State \<Rightarrow> transport \<Rightarrow> transport" where
  "changeState st t =
     (if state t = st then t else t\<lparr>state := st, notified := notified t @ [st]\<rparr>)"

definition recv :: "message_ptr \<Rightarrow> transport \<Rightarrow> transport" where
  "recv m t = t\<lparr>received := received t @ [m]\<rparr>"

definition registerIncoming :: "transport \<Rightarrow> transport" where
  "registerIncoming t = t\<lparr>registered := True\<rparr>"

definition unregisterIncoming :: "transport \<Rightarrow> transport" where
  "unregisterIncoming t = t\<lparr>registered := False\<rparr>"

definition Transport_outgoing :: "message_ptr \<Rightarrow> transport \<Rightarrow> (error + bool) \<times> transport" where
  "Transport_outgoing m t =
     (let t' = t\<lparr>sent := sent t @ [m]\<rparr>
      in case lowerSend t (length (sent t)) of
           Accepted \<Rightarrow> (Inr True, t')
         | Refused \<Rightarrow> (Inr False, t')
         | Raises \<Rightarrow> (Inl LowerFault, t'))"

text \<open>
  Modelled from the spec: the class \<^verbatim>\<open>Queue\<close> is not part of the source file. A push
  is accepted only until the queue is stopped; \<^verbatim>\<open>stop\<close> clears the flag \<open>queueRunning\<close>
  and keeps the queued buffers; \<^verbatim>\<open>pop\<close> does not block and returns the next buffer, if
  any. Buffers already queued are still delivered until drained, and only then do
  consumers observe closure: \<^verbatim>\<open>running()\<close> is false once the queue is stopped and empty.
  The bound on the buffered bytes, which blocks the producer, is left out: no operation
  of this file reads it.
\<close>

definition queue_push :: "message \<Rightarrow> transport \<Rightarrow> transport" where
  "queue_push m t = (if queueRunning t then t\<lparr>mIncomingQueue := mIncomingQueue t @ [m]\<rparr> else t)"

definition queue_stop :: "transport \<Rightarrow> transport" where
  "queue_stop t = t\<lparr>queueRunning := False\<rparr>"

definition queue_running :: "transport \<Rightarrow> bool" where
  "queue_running t = (mIncomingQueue t \<noteq> [] \<or> queueRunning t)"

section \<open>Scheduling\<close>

definition enqueueRecv :: "transport \<Rightarrow> transport" where
  "enqueueRecv t =
     (if mPendingRecvCount t > 0 then t
      else if alive t
        then t\<lparr>mPendingRecvCount := mPendingRecvCount t + 1, poolTasks := poolTasks t + 1\<rparr>
        else t)"

section \<open>The pull loop shared by the read callbacks\<close>

text \<open>
  The loop \<^verbatim>\<open>while (auto next = t->mIncomingQueue.pop())\<close> of both read callbacks:
  every popped buffer is assigned to \<^verbatim>\<open>mIncomingMessage\<close>; a buffer with bytes ends the
  loop, a zero-sized one is passed to \<^verbatim>\<open>recv\<close> and the loop goes on. The first
  argument is the content of the queue.
\<close>

fun popLoop :: "message list \<Rightarrow> transport \<Rightarrow> transport" where
  "popLoop [] t = t\<lparr>mIncomingQueue := []\<rparr>"
| "popLoop (m # q) t =
     (if length m > 0
      then t\<lparr>mIncomingQueue := q, mIncomingMessage := Some m\<rparr>
      else popLoop q (recv (Some m) (t\<lparr>mIncomingQueue := q, mIncomingMessage := Some m\<rparr>)))"

text \<open>Lines 247 to 262 (GnuTLS) and 495 to 510 (MbedTLS): resetting an exhausted buffer
  and fetching the next one.\<close>

definition nextMessage :: "transport \<Rightarrow> transport" where
  "nextMessage t =
     (let t1 = (case mIncomingMessage t of
                  Some m \<Rightarrow> if mIncomingMessagePosition t \<ge> length m
                            then t\<lparr>mIncomingMessage := None\<rparr> else t
                | None \<Rightarrow> t)
      in if mIncomingMessage t1 = None
         then popLoop (mIncomingQueue t1) (t1\<lparr>mIncomingMessagePosition := 0\<rparr>)
         else t1)"

section \<open>The GnuTLS variant\<close>

datatype errno = ENONE | EAGAIN | ECONNRESET

definition outgoing_gnutls :: "message_ptr \<Rightarrow> transport \<Rightarrow> (error + bool) \<times> transport" where
  "outgoing_gnutls m t =
     (case Transport_outgoing m t of
        (Inl e, t') \<Rightarrow> (Inl e, t')
      | (Inr result, t') \<Rightarrow> (Inr result, t'\<lparr>mOutgoingResult := result\<rparr>))"

text \<open>
  A callback returns to the engine; \<open>Inl\<close> stands for an exception that leaves the
  callback. The result of the write callback is the returned \<^verbatim>\<open>ssize_t\<close> and the
  errno set on the session; the read callback also gives the bytes copied to the
  engine's buffer.
\<close>

definition WriteCallback_gnutls ::
  "message \<Rightarrow> transport \<Rightarrow> (error + int \<times> errno) \<times> transport" where
  "WriteCallback_gnutls d t =
     (case (if length d > 0 then outgoing_gnutls (Some d) t else (Inr True, t)) of
        (Inl e, t') \<Rightarrow> (Inr (- 1, ECONNRESET), t')
      | (Inr r, t') \<Rightarrow> (Inr (int (length d), ENONE), t'))"

definition ReadCallback_gnutls ::
  "nat \<Rightarrow> transport \<Rightarrow> (error + int \<times> errno \<times> message) \<times> transport" where
  "ReadCallback_gnutls maxlen t =
     (let t2 = nextMessage t
      in case mIncomingMessage t2 of
           Some m \<Rightarrow>
             (let position = mIncomingMessagePosition t2;
                  available = length m - position;
                  len = min maxlen available
              in (Inr (int len, ENONE, take len (drop position m)),
                  t2\<lparr>mIncomingMessagePosition := position + len\<rparr>))
         | None \<Rightarrow>
             if queue_running t2 then (Inr (- 1, EAGAIN, []), t2)
             else (Inr (0, ENONE, []), t2))"

definition TimeoutCallback_gnutls :: "transport \<Rightarrow> (error + int) \<times> transport" where
  "TimeoutCallback_gnutls t =
     (case mIncomingMessage t of
        Some m \<Rightarrow> if mIncomingMessagePosition t < length m then (Inr 1, t)
                  else (Inr (if mIncomingQueue t \<noteq> [] then 1 else 0), t)
      | None \<Rightarrow> (Inr (if mIncomingQueue t \<noteq> [] then 1 else 0), t))"


text \<open>
  The engine is outside the program. Each call into it (\<^verbatim>\<open>gnutls_handshake\<close>,
  \<^verbatim>\<open>gnutls_record_recv\<close>, \<^verbatim>\<open>gnutls_record_send\<close>, \<^verbatim>\<open>gnutls_bye\<close>) is given by
  the callbacks it invokes, in order, and the code it returns; a run of the program
  consumes one element of such a script per call, and a script that ends before the
  program stops calling gives no result. \<open>GNUTLS_OK d\<close> is a non-negative return; for
  \<^verbatim>\<open>gnutls_record_recv\<close> it is \<open>length d\<close>, with \<open>d\<close> placed in the buffer.
\<close>

datatype gnutls_cb = Pull nat | Push message | PullTimeout

datatype gnutls_ret =
    GNUTLS_E_AGAIN | GNUTLS_E_INTERRUPTED | GNUTLS_E_PREMATURE_TERMINATION
  | GNUTLS_E_NONFATAL | GNUTLS_E_FATAL | GNUTLS_OK message

type_synonym gnutls_call = "gnutls_cb list \<times> gnutls_ret"

text \<open>
  Modelled from the spec: \<^verbatim>\<open>gnutls::check\<close> is not part of the source file. It returns
  true on a non-negative code, false on a non-fatal error (the handshake loop re-calls on
  it) and throws on a fatal one.
\<close>

fun gnutls_check :: "gnutls_ret \<Rightarrow> error + bool" where
  "gnutls_check (GNUTLS_OK d) = Inr True"
| "gnutls_check GNUTLS_E_AGAIN = Inr False"
| "gnutls_check GNUTLS_E_INTERRUPTED = Inr False"
| "gnutls_check GNUTLS_E_NONFATAL = Inr False"
| "gnutls_check GNUTLS_E_PREMATURE_TERMINATION = Inl TlsCheckFailed"
| "gnutls_check GNUTLS_E_FATAL = Inl TlsCheckFailed"

fun callback_gnutls :: "gnutls_cb \<Rightarrow> transport \<Rightarrow> transport" where
  "callback_gnutls (Pull maxlen) t = snd (ReadCallback_gnutls maxlen t)"
| "callback_gnutls (Push d) t = snd (WriteCallback_gnutls d t)"
| "callback_gnutls PullTimeout t = snd (TimeoutCallback_gnutls t)"

fun engine_gnutls :: "gnutls_cb list \<Rightarrow> transport \<Rightarrow> transport" where
  "engine_gnutls [] t = t"
| "engine_gnutls (c # cs) t = engine_gnutls cs (callback_gnutls c t)"

definition postHandshake :: "transport \<Rightarrow> transport" where
  "postHandshake t = t"

definition start_gnutls :: "transport \<Rightarrow> transport" where
  "start_gnutls t = enqueueRecv (changeState Connecting (registerIncoming t))"

definition stop_gnutls :: "transport \<Rightarrow> transport" where
  "stop_gnutls t = enqueueRecv (queue_stop (unregisterIncoming t))"

definition incoming_gnutls :: "message_ptr \<Rightarrow> transport \<Rightarrow> transport" where
  "incoming_gnutls message t =
     (case message of
        None \<Rightarrow> enqueueRecv (queue_stop t)
      | Some m \<Rightarrow> enqueueRecv (queue_push m t))"

text \<open>The loop \<^verbatim>\<open>do ... while (ret == GNUTLS_E_INTERRUPTED || ret == GNUTLS_E_AGAIN)\<close>
  of \<^verbatim>\<open>send\<close>.\<close>

fun record_send_gnutls ::
  "gnutls_call list \<Rightarrow> transport \<Rightarrow> (gnutls_ret \<times> transport) option" where
  "record_send_gnutls [] t = None"
| "record_send_gnutls ((cbs, ret) # es) t =
     (let t1 = engine_gnutls cbs t
      in if ret = GNUTLS_E_INTERRUPTED \<or> ret = GNUTLS_E_AGAIN
         then record_send_gnutls es t1 else Some (ret, t1))"

definition send_gnutls ::
  "message_ptr \<Rightarrow> gnutls_call list \<Rightarrow> transport \<Rightarrow> ((error + bool) \<times> transport) option" where
  "send_gnutls message es t =
     (if state t \<noteq> Connected then Some (Inl TlsNotOpen, t)
      else if message = None \<or> message = Some [] then Some (outgoing_gnutls message t)
      else case record_send_gnutls es t of
             None \<Rightarrow> None
           | Some (ret, t1) \<Rightarrow>
               (case gnutls_check ret of
                  Inl e \<Rightarrow> Some (Inl e, t1)
                | Inr False \<Rightarrow> Some (Inl TlsSendFailed, t1)
                | Inr True \<Rightarrow> Some (Inr (mOutgoingResult t1), t1)))"

text \<open>
  How a part of \<^verbatim>\<open>doRecv\<close> ends: \<open>Return\<close> leaves \<^verbatim>\<open>doRecv\<close>, \<open>Throw\<close> is an
  exception on its way to the handler, \<open>Break\<close> leaves the loop and \<open>Next\<close> goes on with
  the statement that follows.
\<close>

datatype flow = Return | Throw | Break | Next

fun handshake_gnutls ::
  "gnutls_call list \<Rightarrow> transport \<Rightarrow> (flow \<times> gnutls_call list \<times> transport) option" where
  "handshake_gnutls [] t = None"
| "handshake_gnutls ((cbs, ret) # es) t =
     (let t1 = engine_gnutls cbs t
      in if ret = GNUTLS_E_AGAIN then Some (Return, es, t1)
         else case gnutls_check ret of
                Inl e \<Rightarrow> Some (Throw, es, t1)
              | Inr False \<Rightarrow> handshake_gnutls es t1
              | Inr True \<Rightarrow> Some (Next, es, t1))"

fun record_recv_gnutls ::
  "gnutls_call list \<Rightarrow> transport \<Rightarrow> (flow \<times> gnutls_call list \<times> transport) option" where
  "record_recv_gnutls [] t = None"
| "record_recv_gnutls ((cbs, ret) # es) t =
     (let t1 = engine_gnutls cbs t
      in if ret = GNUTLS_E_AGAIN then Some (Return, es, t1)
         else if ret = GNUTLS_E_PREMATURE_TERMINATION then Some (Break, es, t1)
         else case gnutls_check ret of
                Inl e \<Rightarrow> Some (Throw, es, t1)
              | Inr False \<Rightarrow> record_recv_gnutls es t1
              | Inr True \<Rightarrow>
                  (case ret of
                     GNUTLS_OK d \<Rightarrow>
                       if d = [] then Some (Break, es, t1)
                       else record_recv_gnutls es (recv (Some d) t1)
                   | _ \<Rightarrow> record_recv_gnutls es t1))"

text \<open>The \<^verbatim>\<open>try\<close> block of \<^verbatim>\<open>doRecv\<close> (lines 170 to 213).\<close>

definition try_gnutls ::
  "gnutls_call list \<Rightarrow> transport \<Rightarrow> (flow \<times> gnutls_call list \<times> transport) option" where
  "try_gnutls es t =
     (case (if state t = Connecting
            then (case handshake_gnutls es t of
                    Some (Next, es1, t1) \<Rightarrow>
                      Some (Next, es1, postHandshake (changeState Connected t1))
                  | r \<Rightarrow> r)
            else Some (Next, es, t)) of
        Some (Next, es1, t1) \<Rightarrow>
          if state t1 = Connected then record_recv_gnutls es1 t1 else Some (Next, es1, t1)
      | r \<Rightarrow> r)"

text \<open>
  \<^verbatim>\<open>doRecv\<close> up to the call of \<^verbatim>\<open>gnutls_bye\<close> (lines 164 to 215): the result is
  \<open>Return\<close> when \<^verbatim>\<open>doRecv\<close> has returned, and otherwise the transport as the terminal
  resolution finds it.
\<close>

definition body_gnutls :: "gnutls_call list \<Rightarrow> transport \<Rightarrow> (flow \<times> transport) option" where
  "body_gnutls es t =
     (case try_gnutls es (t\<lparr>mPendingRecvCount := mPendingRecvCount t - 1\<rparr>) of
        None \<Rightarrow> None
      | Some (Return, es1, t1) \<Rightarrow> Some (Return, t1)
      | Some (f, [], t1) \<Rightarrow> None
      | Some (f, (cbs, ret) # es2, t1) \<Rightarrow> Some (Next, engine_gnutls cbs t1))"

text \<open>The terminal resolution (lines 217 to 224).\<close>

definition resolve_gnutls :: "transport \<Rightarrow> transport" where
  "resolve_gnutls t =
     (if state t = Connected then recv None (changeState Disconnected t)
      else changeState Failed t)"

definition doRecv_gnutls :: "gnutls_call list \<Rightarrow> transport \<Rightarrow> transport option" where
  "doRecv_gnutls es t =
     (case body_gnutls es t of
        None \<Rightarrow> None
      | Some (Return, t1) \<Rightarrow> Some t1
      | Some (f, t1) \<Rightarrow> Some (resolve_gnutls t1))"


section \<open>The MbedTLS variant\<close>

text \<open>
  The codes the source names, one constructor for every other negative code, and
  \<open>MBEDTLS_OK d\<close> for a non-negative return (\<open>length d\<close>, with \<open>d\<close> the bytes read or
  copied).
\<close>

datatype mbedtls_ret =
    MBEDTLS_ERR_SSL_WANT_READ | MBEDTLS_ERR_SSL_WANT_WRITE
  | MBEDTLS_ERR_SSL_ASYNC_IN_PROGRESS | MBEDTLS_ERR_SSL_CRYPTO_IN_PROGRESS
  | MBEDTLS_ERR_SSL_PEER_CLOSE_NOTIFY | MBEDTLS_ERR_SSL_CONN_EOF
  | MBEDTLS_ERR_SSL_INTERNAL_ERROR | MBEDTLS_ERR_OTHER | MBEDTLS_OK message

datatype mbedtls_cb = BioRecv nat | BioSend message

type_synonym mbedtls_call = "mbedtls_cb list \<times> mbedtls_ret"

text \<open>
  Modelled from the spec: \<^verbatim>\<open>mbedtls::check\<close> is not part of the source file. Retryable
  codes are not faults (it returns false on them); any other negative code is fatal and
  makes it throw.
\<close>

fun mbedtls_check :: "mbedtls_ret \<Rightarrow> error + bool" where
  "mbedtls_check (MBEDTLS_OK d) = Inr True"
| "mbedtls_check MBEDTLS_ERR_SSL_WANT_READ = Inr False"
| "mbedtls_check MBEDTLS_ERR_SSL_WANT_WRITE = Inr False"
| "mbedtls_check MBEDTLS_ERR_SSL_ASYNC_IN_PROGRESS = Inr False"
| "mbedtls_check MBEDTLS_ERR_SSL_CRYPTO_IN_PROGRESS = Inr False"
| "mbedtls_check r = Inl TlsCheckFailed"

definition outgoing_mbedtls :: "message_ptr \<Rightarrow> transport \<Rightarrow> (error + bool) \<times> transport" where
  "outgoing_mbedtls m t =
     (case Transport_outgoing m t of
        (Inl e, t') \<Rightarrow> (Inl e, t')
      | (Inr result, t') \<Rightarrow> (Inr result, t'\<lparr>mOutgoingResult := result\<rparr>))"

text \<open>The write callback has no handler: a fault of \<^verbatim>\<open>outgoing\<close> leaves it.\<close>

definition WriteCallback_mbedtls :: "message \<Rightarrow> transport \<Rightarrow> (error + int) \<times> transport" where
  "WriteCallback_mbedtls d t =
     (case outgoing_mbedtls (Some d) t of
        (Inl e, t') \<Rightarrow> (Inl e, t')
      | (Inr r, t') \<Rightarrow> (Inr (int (length d)), t'))"

definition ReadCallback_mbedtls ::
  "nat \<Rightarrow> transport \<Rightarrow> (error + mbedtls_ret) \<times> transport" where
  "ReadCallback_mbedtls len t =
     (let t2 = nextMessage t
      in case mIncomingMessage t2 of
           Some m \<Rightarrow>
             (let position = mIncomingMessagePosition t2;
                  available = length m - position;
                  writeLen = min len available
              in (Inr (MBEDTLS_OK (take writeLen (drop position m))),
                  t2\<lparr>mIncomingMessagePosition := position + writeLen\<rparr>))
         | None \<Rightarrow>
             if queue_running t2 then (Inr MBEDTLS_ERR_SSL_WANT_READ, t2)
             else (Inr MBEDTLS_ERR_SSL_CONN_EOF, t2))"

text \<open>One call into the engine: the callbacks run in order, and an exception that
  leaves a callback ends the call.\<close>

fun engine_mbedtls :: "mbedtls_cb list \<Rightarrow> transport \<Rightarrow> error option \<times> transport" where
  "engine_mbedtls [] t = (None, t)"
| "engine_mbedtls (BioRecv len # cs) t =
     (case ReadCallback_mbedtls len t of
        (Inl e, t1) \<Rightarrow> (Some e, t1)
      | (Inr r, t1) \<Rightarrow> engine_mbedtls cs t1)"
| "engine_mbedtls (BioSend d # cs) t =
     (case WriteCallback_mbedtls d t of
        (Inl e, t1) \<Rightarrow> (Some e, t1)
      | (Inr r, t1) \<Rightarrow> engine_mbedtls cs t1)"

definition start_mbedtls :: "transport \<Rightarrow> transport" where
  "start_mbedtls t = enqueueRecv (changeState Connecting (registerIncoming t))"

definition stop_mbedtls :: "transport \<Rightarrow> transport" where
  "stop_mbedtls t = enqueueRecv (queue_stop (unregisterIncoming t))"

definition incoming_mbedtls :: "message_ptr \<Rightarrow> transport \<Rightarrow> transport" where
  "incoming_mbedtls message t =
     (case message of
        None \<Rightarrow> enqueueRecv (queue_stop t)
      | Some m \<Rightarrow> enqueueRecv (queue_push m t))"

definition send_mbedtls ::
  "message_ptr \<Rightarrow> mbedtls_call list \<Rightarrow> transport \<Rightarrow> ((error + bool) \<times> transport) option" where
  "send_mbedtls message es t =
     (if state t \<noteq> Connected then Some (Inl TlsNotOpen, t)
      else if message = None \<or> message = Some [] then Some (outgoing_mbedtls message t)
      else case es of
             [] \<Rightarrow> None
           | (cbs, ret) # es1 \<Rightarrow>
               (case engine_mbedtls cbs t of
                  (Some e, t1) \<Rightarrow> Some (Inl e, t1)
                | (None, t1) \<Rightarrow>
                    (case mbedtls_check ret of
                       Inl e \<Rightarrow> Some (Inl e, t1)
                     | Inr b \<Rightarrow> Some (Inr (mOutgoingResult t1), t1))))"

fun handshake_mbedtls ::
  "mbedtls_call list \<Rightarrow> transport \<Rightarrow> (flow \<times> mbedtls_call list \<times> transport) option" where
  "handshake_mbedtls [] t = None"
| "handshake_mbedtls ((cbs, ret) # es) t =
     (case engine_mbedtls cbs t of
        (Some e, t1) \<Rightarrow> Some (Throw, es, t1)
      | (None, t1) \<Rightarrow>
         (if ret = MBEDTLS_ERR_SSL_WANT_READ \<or> ret = MBEDTLS_ERR_SSL_WANT_WRITE
          then Some (Return, es, t1)
          else if ret = MBEDTLS_ERR_SSL_ASYNC_IN_PROGRESS \<or> ret = MBEDTLS_ERR_SSL_CRYPTO_IN_PROGRESS
          then handshake_mbedtls es t1
          else (case mbedtls_check ret of
                  Inl e \<Rightarrow> Some (Throw, es, t1)
                | Inr b \<Rightarrow> Some (Break, es, postHandshake (changeState Connected t1)))))"

fun ssl_read_mbedtls ::
  "mbedtls_call list \<Rightarrow> transport \<Rightarrow> (flow \<times> mbedtls_call list \<times> transport) option" where
  "ssl_read_mbedtls [] t = None"
| "ssl_read_mbedtls ((cbs, ret) # es) t =
     (case engine_mbedtls cbs t of
        (Some e, t1) \<Rightarrow> Some (Throw, es, t1)
      | (None, t1) \<Rightarrow>
         (if ret = MBEDTLS_ERR_SSL_WANT_READ \<or> ret = MBEDTLS_ERR_SSL_WANT_WRITE
          then Some (Return, es, t1)
          else if ret = MBEDTLS_ERR_SSL_ASYNC_IN_PROGRESS \<or> ret = MBEDTLS_ERR_SSL_CRYPTO_IN_PROGRESS
          then ssl_read_mbedtls es t1
          else if ret = MBEDTLS_OK [] \<or> ret = MBEDTLS_ERR_SSL_PEER_CLOSE_NOTIFY
          then Some (Break, es, t1)
          else (case mbedtls_check ret of
                  Inl e \<Rightarrow> Some (Throw, es, t1)
                | Inr b \<Rightarrow>
                    (case ret of
                       MBEDTLS_OK d \<Rightarrow> ssl_read_mbedtls es (recv (Some d) t1)
                     | _ \<Rightarrow> None))))"

text \<open>The \<^verbatim>\<open>try\<close> block of \<^verbatim>\<open>doRecv\<close> (lines 417 to 472).\<close>

definition try_mbedtls ::
  "mbedtls_call list \<Rightarrow> transport \<Rightarrow> (flow \<times> mbedtls_call list \<times> transport) option" where
  "try_mbedtls es t =
     (case (if state t = Connecting then handshake_mbedtls es t else Some (Next, es, t)) of
        None \<Rightarrow> None
      | Some (Return, es1, t1) \<Rightarrow> Some (Return, es1, t1)
      | Some (Throw, es1, t1) \<Rightarrow> Some (Throw, es1, t1)
      | Some (f, es1, t1) \<Rightarrow>
          if state t1 = Connected then ssl_read_mbedtls es1 t1 else Some (Next, es1, t1))"

text \<open>\<^verbatim>\<open>doRecv\<close> up to the terminal resolution (lines 411 to 472).\<close>

definition body_mbedtls :: "mbedtls_call list \<Rightarrow> transport \<Rightarrow> (flow \<times> transport) option" where
  "body_mbedtls es t =
     (let t0 = t\<lparr>mPendingRecvCount := mPendingRecvCount t - 1\<rparr>
      in if state t0 \<noteq> Connecting \<and> state t0 \<noteq> Connected then Some (Return, t0)
         else case try_mbedtls es t0 of
                None \<Rightarrow> None
              | Some (Return, es1, t1) \<Rightarrow> Some (Return, t1)
              | Some (f, es1, t1) \<Rightarrow> Some (Next, t1))"

definition resolve_mbedtls :: "transport \<Rightarrow> transport" where
  "resolve_mbedtls t =
     (if state t = Connected then recv None (changeState Disconnected t)
      else changeState Failed t)"

definition doRecv_mbedtls :: "mbedtls_call list \<Rightarrow> transport \<Rightarrow> transport option" where
  "doRecv_mbedtls es t =
     (case body_mbedtls es t of
        None \<Rightarrow> None
      | Some (Return, t1) \<Rightarrow> Some t1
      | Some (f, t1) \<Rightarrow> Some (resolve_mbedtls t1))"


section \<open>The OpenSSL variant\<close>

text \<open>
  A call into the engine (\<^verbatim>\<open>SSL_do_handshake\<close>, \<^verbatim>\<open>SSL_read\<close>, \<^verbatim>\<open>SSL_write\<close>,
  \<^verbatim>\<open>SSL_shutdown\<close>) is given by: whether it invokes the info callback with an alert,
  the bytes it appends to the output BIO, what it returns, and what
  \<^verbatim>\<open>SSL_is_init_finished\<close> says after it. \<open>SSL_POSITIVE d\<close> is a return value above
  zero (for \<^verbatim>\<open>SSL_read\<close>, the bytes \<open>d\<close> placed in the buffer); the others are the values
  of \<^verbatim>\<open>SSL_get_error\<close> for a return value of zero or below.
\<close>

datatype openssl_ret =
    SSL_POSITIVE message | SSL_ERROR_NONE | SSL_ERROR_WANT_READ | SSL_ERROR_WANT_WRITE
  | SSL_ERROR_ZERO_RETURN | SSL_ERROR_OTHER

datatype openssl_call =
  Call (call_alert: bool) (call_output: message) (call_ret: openssl_ret) (call_finished: bool)

text \<open>
  Modelled from the spec: \<^verbatim>\<open>openssl::check\<close> is not part of the source file. It returns
  true when the engine reports no error or wants to read or write, false on a clean
  closure by the peer, and throws on any other error.
\<close>

fun openssl_check :: "openssl_ret \<Rightarrow> error + bool" where
  "openssl_check (SSL_POSITIVE d) = Inr True"
| "openssl_check SSL_ERROR_NONE = Inr True"
| "openssl_check SSL_ERROR_WANT_READ = Inr True"
| "openssl_check SSL_ERROR_WANT_WRITE = Inr True"
| "openssl_check SSL_ERROR_ZERO_RETURN = Inr False"
| "openssl_check SSL_ERROR_OTHER = Inl TlsCheckFailed"

definition InfoCallback :: "bool \<Rightarrow> transport \<Rightarrow> transport" where
  "InfoCallback is_alert t = (if is_alert then queue_stop t else t)"

definition engine_openssl :: "openssl_call \<Rightarrow> transport \<Rightarrow> transport" where
  "engine_openssl c t =
     (let t1 = InfoCallback (call_alert c) t in t1\<lparr>mOutBio := mOutBio t1 @ call_output c\<rparr>)"

definition BIO_write :: "message \<Rightarrow> transport \<Rightarrow> transport" where
  "BIO_write d t = t\<lparr>mInBio := mInBio t @ d\<rparr>"

definition outgoing_openssl :: "message_ptr \<Rightarrow> transport \<Rightarrow> (error + bool) \<times> transport" where
  "outgoing_openssl m t = Transport_outgoing m t"

text \<open>
  The loop of \<^verbatim>\<open>flushOutput\<close>: \<^verbatim>\<open>BIO_read\<close> takes up to 4096 bytes from the output
  BIO until it is empty. The first argument is the content of the BIO, the second the
  value of \<^verbatim>\<open>result\<close>.
\<close>

function flushLoop :: "message \<Rightarrow> bool \<Rightarrow> transport \<Rightarrow> (error + bool) \<times> transport" where
  "flushLoop bio result t =
     (if bio = [] then (Inr result, t\<lparr>mOutBio := []\<rparr>)
      else case outgoing_openssl (Some (take 4096 bio)) (t\<lparr>mOutBio := drop 4096 bio\<rparr>) of
             (Inl e, t1) \<Rightarrow> (Inl e, t1)
           | (Inr r, t1) \<Rightarrow> flushLoop (drop 4096 bio) r t1)"
  by pat_completeness auto
termination
  by (relation "measure (\<lambda>(bio, result, t). length bio)") auto

definition flushOutput :: "transport \<Rightarrow> (error + bool) \<times> transport" where
  "flushOutput t = flushLoop (mOutBio t) True t"

definition start_openssl ::
  "openssl_call list \<Rightarrow> transport \<Rightarrow> ((error + unit) \<times> transport) option" where
  "start_openssl es t =
     (let t1 = changeState Connecting (registerIncoming t)
      in case es of
           [] \<Rightarrow> None
         | c # es1 \<Rightarrow>
             (let t2 = engine_openssl c t1
              in case openssl_check (call_ret c) of
                   Inl e \<Rightarrow> Some (Inl e, t2)
                 | Inr b \<Rightarrow>
                     (case flushOutput t2 of
                        (Inl e, t3) \<Rightarrow> Some (Inl e, t3)
                      | (Inr r, t3) \<Rightarrow> Some (Inr (), t3))))"

definition stop_openssl :: "transport \<Rightarrow> transport" where
  "stop_openssl t = enqueueRecv (queue_stop (unregisterIncoming t))"

definition incoming_openssl :: "message_ptr \<Rightarrow> transport \<Rightarrow> transport" where
  "incoming_openssl message t =
     (case message of
        None \<Rightarrow> enqueueRecv (queue_stop t)
      | Some m \<Rightarrow> enqueueRecv (queue_push m t))"

definition send_openssl ::
  "message_ptr \<Rightarrow> openssl_call list \<Rightarrow> transport \<Rightarrow> ((error + bool) \<times> transport) option" where
  "send_openssl message es t =
     (if state t \<noteq> Connected then Some (Inl TlsNotOpen, t)
      else if message = None \<or> message = Some [] then Some (outgoing_openssl message t)
      else case es of
             [] \<Rightarrow> None
           | c # es1 \<Rightarrow>
               (let t1 = engine_openssl c t
                in case openssl_check (call_ret c) of
                     Inl e \<Rightarrow> Some (Inl e, t1)
                   | Inr False \<Rightarrow> Some (Inl TlsSendFailed, t1)
                   | Inr True \<Rightarrow> Some (flushOutput t1)))"

text \<open>The loop \<^verbatim>\<open>while ((ret = SSL_read(...)) > 0)\<close>; it gives the first return that
  is not positive.\<close>

fun ssl_read_openssl ::
  "openssl_call list \<Rightarrow> transport \<Rightarrow> (openssl_ret \<times> openssl_call list \<times> transport) option" where
  "ssl_read_openssl [] t = None"
| "ssl_read_openssl (c # es) t =
     (let t1 = engine_openssl c t
      in case call_ret c of
           SSL_POSITIVE d \<Rightarrow> ssl_read_openssl es (recv (Some d) t1)
         | r \<Rightarrow> Some (r, es, t1))"

text \<open>Lines 705 to 718: continuing the handshake.\<close>

definition connecting_openssl ::
  "openssl_call list \<Rightarrow> transport \<Rightarrow> (flow \<times> openssl_call list \<times> transport) option" where
  "connecting_openssl es t =
     (if state t = Connecting
      then (case es of
              [] \<Rightarrow> None
            | c # es1 \<Rightarrow>
                (let t1 = engine_openssl c t
                 in case openssl_check (call_ret c) of
                      Inl e \<Rightarrow> Some (Throw, es1, t1)
                    | Inr False \<Rightarrow> Some (Break, es1, t1)
                    | Inr True \<Rightarrow>
                        (case flushOutput t1 of
                           (Inl e, t2) \<Rightarrow> Some (Throw, es1, t2)
                         | (Inr r, t2) \<Rightarrow>
                             Some (Next, es1,
                                   if call_finished c
                                   then postHandshake (changeState Connected t2) else t2))))
      else Some (Next, es, t))"

text \<open>Lines 720 to 727: reading records.\<close>

definition connected_openssl ::
  "openssl_call list \<Rightarrow> transport \<Rightarrow> (flow \<times> openssl_call list \<times> transport) option" where
  "connected_openssl es t =
     (if state t = Connected
      then (case ssl_read_openssl es t of
              None \<Rightarrow> None
            | Some (r, es1, t1) \<Rightarrow>
                (case openssl_check r of
                   Inl e \<Rightarrow> Some (Throw, es1, t1)
                 | Inr False \<Rightarrow> Some (Break, es1, t1)
                 | Inr True \<Rightarrow> Some (Next, es1, t1)))
      else Some (Next, es, t))"

text \<open>Lines 699 to 703: a popped buffer goes to the input BIO, or upward when it has
  no bytes.\<close>

definition input_openssl :: "message \<Rightarrow> transport \<Rightarrow> transport" where
  "input_openssl m t = (if length m > 0 then BIO_write m t else recv (Some m) t)"

text \<open>
  The loop \<^verbatim>\<open>while (mIncomingQueue.running())\<close> (lines 694 to 728). The first argument
  is the content of the queue, \<open>mIncomingQueue t\<close>, which only the pop of this loop
  changes: the loop goes on while buffers are queued, also after the queue was stopped.
\<close>

fun process_openssl ::
  "message list \<Rightarrow> openssl_call list \<Rightarrow> transport \<Rightarrow>
     (flow \<times> openssl_call list \<times> transport) option" where
  "process_openssl [] es t =
     (if queue_running t then Some (Return, es, t) else Some (Next, es, t))"
| "process_openssl (m # q) es t =
     (if queue_running t
      then (let t2 = input_openssl m (t\<lparr>mIncomingQueue := q\<rparr>)
            in case connecting_openssl es t2 of
                 None \<Rightarrow> None
               | Some (Next, es3, t3) \<Rightarrow>
                   (case connected_openssl es3 t3 of
                      None \<Rightarrow> None
                    | Some (Next, es4, t4) \<Rightarrow> process_openssl q es4 t4
                    | Some r \<Rightarrow> Some r)
               | Some r \<Rightarrow> Some r)
      else Some (Next, es, t))"

text \<open>\<^verbatim>\<open>doRecv\<close> up to the call of \<^verbatim>\<open>SSL_shutdown\<close> (lines 683 to 734).\<close>

definition body_openssl :: "openssl_call list \<Rightarrow> transport \<Rightarrow> (flow \<times> transport) option" where
  "body_openssl es t =
     (let t0 = t\<lparr>mPendingRecvCount := mPendingRecvCount t - 1\<rparr>
      in if state t0 \<noteq> Connecting \<and> state t0 \<noteq> Connected then Some (Return, t0)
         else case process_openssl (mIncomingQueue t0) es t0 of
                None \<Rightarrow> None
              | Some (Return, es1, t1) \<Rightarrow> Some (Return, t1)
              | Some (f, [], t1) \<Rightarrow> None
              | Some (f, c # es2, t1) \<Rightarrow> Some (Next, engine_openssl c t1))"

definition resolve_openssl :: "transport \<Rightarrow> transport" where
  "resolve_openssl t =
     (if state t = Connected then recv None (changeState Disconnected t)
      else changeState Failed t)"

definition doRecv_openssl :: "openssl_call list \<Rightarrow> transport \<Rightarrow> transport option" where
  "doRecv_openssl es t =
     (case body_openssl es t of
        None \<Rightarrow> None
      | Some (Return, t1) \<Rightarrow> Some t1
      | Some (f, t1) \<Rightarrow> Some (resolve_openssl t1))"


section \<open>Runs\<close>

text \<open>
  The callers of one instance: the public operations, each with the script of the engine
  calls it makes, and the thread pool, which takes a waiting task of the instance and
  runs \<^verbatim>\<open>doRecv\<close>. A run has no result when the pool is asked for a task that is not
  there or when a script ends too early. The value a \<^verbatim>\<open>send\<close> or \<^verbatim>\<open>start\<close> returns or
  throws goes to its caller and the run goes on.
\<close>

datatype 'c op =
  Start "'c list" | Stop | Incoming message_ptr | Send message_ptr "'c list" | Task "'c list"

definition takeTask :: "transport \<Rightarrow> transport" where
  "takeTask t = t\<lparr>poolTasks := poolTasks t - 1\<rparr>"

fun step_gnutls :: "gnutls_call op \<Rightarrow> transport \<Rightarrow> transport option" where
  "step_gnutls (Start es) t = Some (start_gnutls t)"
| "step_gnutls Stop t = Some (stop_gnutls t)"
| "step_gnutls (Incoming m) t = Some (incoming_gnutls m t)"
| "step_gnutls (Send m es) t = map_option snd (send_gnutls m es t)"
| "step_gnutls (Task es) t = (if poolTasks t = 0 then None else doRecv_gnutls es (takeTask t))"

fun step_mbedtls :: "mbedtls_call op \<Rightarrow> transport \<Rightarrow> transport option" where
  "step_mbedtls (Start es) t = Some (start_mbedtls t)"
| "step_mbedtls Stop t = Some (stop_mbedtls t)"
| "step_mbedtls (Incoming m) t = Some (incoming_mbedtls m t)"
| "step_mbedtls (Send m es) t = map_option snd (send_mbedtls m es t)"
| "step_mbedtls (Task es) t = (if poolTasks t = 0 then None else doRecv_mbedtls es (takeTask t))"

fun step_openssl :: "openssl_call op \<Rightarrow> transport \<Rightarrow> transport option" where
  "step_openssl (Start es) t = map_option snd (start_openssl es t)"
| "step_openssl Stop t = Some (stop_openssl t)"
| "step_openssl (Incoming m) t = Some (incoming_openssl m t)"
| "step_openssl (Send m es) t = map_option snd (send_openssl m es t)"
| "step_openssl (Task es) t = (if poolTasks t = 0 then None else doRecv_openssl es (takeTask t))"

fun exec_gnutls :: "gnutls_call op list \<Rightarrow> transport \<Rightarrow> transport option" where
  "exec_gnutls [] t = Some t"
| "exec_gnutls (x # xs) t =
     (case step_gnutls x t of None \<Rightarrow> None | Some t1 \<Rightarrow> exec_gnutls xs t1)"

fun exec_mbedtls :: "mbedtls_call op list \<Rightarrow> transport \<Rightarrow> transport option" where
  "exec_mbedtls [] t = Some t"
| "exec_mbedtls (x # xs) t =
     (case step_mbedtls x t of None \<Rightarrow> None | Some t1 \<Rightarrow> exec_mbedtls xs t1)"

fun exec_openssl :: "openssl_call op list \<Rightarrow> transport \<Rightarrow> transport option" where
  "exec_openssl [] t = Some t"
| "exec_openssl (x # xs) t =
     (case step_openssl x t of None \<Rightarrow> None | Some t1 \<Rightarrow> exec_openssl xs t1)"

text \<open>A new instance, owned by a shared pointer, over a lower transport that accepts
  every message.\<close>

definition fresh :: transport where
  "fresh = initial True True (\<lambda>k. Accepted)"

text \<open>The number of end-of-stream signals delivered upward so far.\<close>

definition eos :: "transport \<Rightarrow> nat" where
  "eos t = count_list (received t) None"


text \<open>
  What a callback, an engine call and an upward delivery of data leave alone: the
  counter, the tasks waiting in the pool, the liveness of the instance and the number of
  end-of-stream signals delivered.
\<close>

definition kept :: "transport \<Rightarrow> transport \<Rightarrow> bool" where
  "kept t t' =
     (mPendingRecvCount t' = mPendingRecvCount t \<and> poolTasks t' = poolTasks t \<and>
      alive t' = alive t \<and> eos t' = eos t)"


text \<open>
  How \<^verbatim>\<open>mOutgoingResult\<close> follows the pushes to the lower transport between two
  moments: the messages handed down are only added to; with none added the stored result
  is the old one; otherwise, when the lower transport answered the last one, it is that
  answer.
\<close>

definition stored :: "transport \<Rightarrow> transport \<Rightarrow> bool" where
  "stored t t' =
     (lowerSend t' = lowerSend t \<and>
      length (sent t) \<le> length (sent t') \<and> take (length (sent t)) (sent t') = sent t \<and>
      (if sent t' = sent t then mOutgoingResult t' = mOutgoingResult t
       else if lowerSend t (length (sent t') - 1) = Accepted then mOutgoingResult t'
       else if lowerSend t (length (sent t') - 1) = Refused then \<not> mOutgoingResult t'
       else True))"



section \<open>Frame lemmas\<close>

lemma kept_refl [simp]: "kept t t"
  by (simp add: kept_def)

lemma kept_trans: "kept t t1 \<Longrightarrow> kept t1 t2 \<Longrightarrow> kept t t2"
  by (simp add: kept_def)

lemma kept_right: "kept u u' \<Longrightarrow> kept t u' = kept t u"
  by (auto simp: kept_def)

lemma kept_update [simp]:
  "kept t (u\<lparr>state := a1\<rparr>) = kept t u"
  "kept t (u\<lparr>notified := a2\<rparr>) = kept t u"
  "kept t (u\<lparr>registered := a3\<rparr>) = kept t u"
  "kept t (u\<lparr>mIncomingQueue := a4\<rparr>) = kept t u"
  "kept t (u\<lparr>queueRunning := a5\<rparr>) = kept t u"
  "kept t (u\<lparr>mIncomingMessage := a6\<rparr>) = kept t u"
  "kept t (u\<lparr>mIncomingMessagePosition := a7\<rparr>) = kept t u"
  "kept t (u\<lparr>mOutgoingResult := a8\<rparr>) = kept t u"
  "kept t (u\<lparr>mInBio := a9\<rparr>) = kept t u"
  "kept t (u\<lparr>mOutBio := a10\<rparr>) = kept t u"
  "kept t (u\<lparr>sent := a11\<rparr>) = kept t u"
  by (simp_all add: kept_def eos_def)

lemma kept_update_left [simp]:
  "kept (u\<lparr>state := a1\<rparr>) t = kept u t"
  "kept (u\<lparr>notified := a2\<rparr>) t = kept u t"
  "kept (u\<lparr>registered := a3\<rparr>) t = kept u t"
  "kept (u\<lparr>mIncomingQueue := a4\<rparr>) t = kept u t"
  "kept (u\<lparr>queueRunning := a5\<rparr>) t = kept u t"
  "kept (u\<lparr>mIncomingMessage := a6\<rparr>) t = kept u t"
  "kept (u\<lparr>mIncomingMessagePosition := a7\<rparr>) t = kept u t"
  "kept (u\<lparr>mOutgoingResult := a8\<rparr>) t = kept u t"
  "kept (u\<lparr>mInBio := a9\<rparr>) t = kept u t"
  "kept (u\<lparr>mOutBio := a10\<rparr>) t = kept u t"
  "kept (u\<lparr>sent := a11\<rparr>) t = kept u t"
  by (simp_all add: kept_def eos_def)

lemma kept_recv_Some [simp]: "kept t (recv (Some d) u) = kept t u"
  by (simp add: kept_def recv_def eos_def)

lemma kept_changeState [simp]: "kept t (changeState st u) = kept t u"
  by (simp add: changeState_def)

lemma kept_postHandshake [simp]: "kept t (postHandshake u) = kept t u"
  by (simp add: postHandshake_def)

lemma kept_queue_stop [simp]: "kept t (queue_stop u) = kept t u"
  by (simp add: queue_stop_def)

lemma kept_left: "kept u u' \<Longrightarrow> kept u' t = kept u t"
  by (auto simp: kept_def)

lemma kept_recv_Some_left [simp]: "kept (recv (Some d) u) t = kept u t"
  by (rule kept_left) simp

lemma kept_changeState_left [simp]: "kept (changeState st u) t = kept u t"
  by (rule kept_left) simp

lemma kept_postHandshake_left [simp]: "kept (postHandshake u) t = kept u t"
  by (rule kept_left) simp

lemma kept_Transport_outgoing: "Transport_outgoing m t = (r, t') \<Longrightarrow> kept t t'"
  by (auto simp: Transport_outgoing_def Let_def split: reply.splits)

lemma kept_outgoing_gnutls: "outgoing_gnutls m t = (r, t') \<Longrightarrow> kept t t'"
  by (auto simp: outgoing_gnutls_def split: prod.splits sum.splits
      dest: kept_Transport_outgoing)

lemma kept_outgoing_mbedtls: "outgoing_mbedtls m t = (r, t') \<Longrightarrow> kept t t'"
  by (auto simp: outgoing_mbedtls_def split: prod.splits sum.splits
      dest: kept_Transport_outgoing)

lemma kept_outgoing_openssl: "outgoing_openssl m t = (r, t') \<Longrightarrow> kept t t'"
  by (simp add: outgoing_openssl_def kept_Transport_outgoing)

lemma kept_popLoop [simp]: "kept t (popLoop q u) = kept t u"
  by (induction q arbitrary: u) simp_all

lemma kept_nextMessage [simp]: "kept t (nextMessage u) = kept t u"
  by (simp add: nextMessage_def Let_def split: option.splits)

lemma kept_WriteCallback_gnutls: "WriteCallback_gnutls d t = (r, t') \<Longrightarrow> kept t t'"
  by (auto simp: WriteCallback_gnutls_def split: if_splits prod.splits sum.splits
      dest: kept_outgoing_gnutls)

lemma kept_ReadCallback_gnutls: "ReadCallback_gnutls n t = (r, t') \<Longrightarrow> kept t t'"
  by (auto simp: ReadCallback_gnutls_def Let_def split: if_splits option.splits)

lemma kept_TimeoutCallback_gnutls: "TimeoutCallback_gnutls t = (r, t') \<Longrightarrow> kept t t'"
  by (auto simp: TimeoutCallback_gnutls_def split: if_splits option.splits)

lemma kept_callback_gnutls: "kept t (callback_gnutls c t)"
  by (cases c)
     (auto intro: kept_WriteCallback_gnutls kept_ReadCallback_gnutls kept_TimeoutCallback_gnutls
           simp: prod_eq_iff)

lemma kept_engine_gnutls [simp]: "kept t (engine_gnutls cs u) = kept t u"
proof (induction cs arbitrary: u)
  case Nil
  show ?case by simp
next
  case (Cons c cs)
  show ?case using Cons.IH kept_right [OF kept_callback_gnutls] by simp
qed

lemma kept_engine_gnutls_left [simp]: "kept (engine_gnutls cs u) t = kept u t"
  by (rule kept_left) simp

lemma kept_WriteCallback_mbedtls: "WriteCallback_mbedtls d t = (r, t') \<Longrightarrow> kept t t'"
  by (auto simp: WriteCallback_mbedtls_def split: if_splits prod.splits sum.splits
      dest: kept_outgoing_mbedtls)

lemma kept_ReadCallback_mbedtls: "ReadCallback_mbedtls n t = (r, t') \<Longrightarrow> kept t t'"
  by (auto simp: ReadCallback_mbedtls_def Let_def split: if_splits option.splits)

lemma kept_engine_mbedtls: "engine_mbedtls cs t = (r, t') \<Longrightarrow> kept t t'"
proof (induction cs arbitrary: t)
  case Nil
  then show ?case by simp
next
  case (Cons c cs)
  show ?case
  proof (cases c)
    case (BioRecv n)
    with Cons show ?thesis
      by (auto split: prod.splits sum.splits
          dest!: kept_ReadCallback_mbedtls intro: kept_trans)
  next
    case (BioSend d)
    with Cons show ?thesis
      by (auto split: prod.splits sum.splits
          dest!: kept_WriteCallback_mbedtls intro: kept_trans)
  qed
qed

lemma kept_engine_openssl [simp]: "kept t (engine_openssl c u) = kept t u"
  by (simp add: engine_openssl_def InfoCallback_def Let_def)

lemma kept_BIO_write [simp]: "kept t (BIO_write d u) = kept t u"
  by (simp add: BIO_write_def)

lemma kept_input_openssl [simp]: "kept t (input_openssl m u) = kept t u"
  by (simp add: input_openssl_def)

lemma kept_engine_openssl_left [simp]: "kept (engine_openssl c u) t = kept u t"
  by (rule kept_left) simp

lemma kept_input_openssl_left [simp]: "kept (input_openssl m u) t = kept u t"
  by (rule kept_left) simp

lemma kept_flushLoop: "flushLoop bio b t = (r, t') \<Longrightarrow> kept t t'"
proof (induction bio b t rule: flushLoop.induct)
  case (1 bio result t)
  show ?case
  proof (cases "bio = []")
    case True
    with "1.prems" show ?thesis by auto
  next
    case False
    obtain x u where o: "outgoing_openssl (Some (take 4096 bio)) (t\<lparr>mOutBio := drop 4096 bio\<rparr>) = (x, u)"
      by (cases "outgoing_openssl (Some (take 4096 bio)) (t\<lparr>mOutBio := drop 4096 bio\<rparr>)")
    from kept_outgoing_openssl [OF o] have k: "kept t u" by simp
    show ?thesis
    proof (cases x)
      case (Inl e)
      with False o "1.prems" k show ?thesis by simp
    next
      case (Inr b')
      with False o "1.prems" have "flushLoop (drop 4096 bio) b' u = (r, t')" by simp
      from "1.IH" [OF False o [symmetric] Inr this] k show ?thesis
        by (rule kept_trans [rotated])
    qed
  qed
qed

lemma kept_flushOutput: "flushOutput t = (r, t') \<Longrightarrow> kept t t'"
  by (simp add: flushOutput_def kept_flushLoop)


section \<open>Loops\<close>

lemma kept_handshake_gnutls: "handshake_gnutls es t = Some (f, es', t') \<Longrightarrow> kept t t'"
proof (induction es arbitrary: t)
  case Nil
  then show ?case by simp
next
  case (Cons c es)
  obtain cbs r where c: "c = (cbs, r)" by (cases c)
  from Cons.prems show ?case
    unfolding c
    by (auto simp: Let_def split: if_splits sum.splits bool.splits dest!: Cons.IH)
qed

lemma kept_record_recv_gnutls: "record_recv_gnutls es t = Some (f, es', t') \<Longrightarrow> kept t t'"
proof (induction es arbitrary: t)
  case Nil
  then show ?case by simp
next
  case (Cons c es)
  obtain cbs r where c: "c = (cbs, r)" by (cases c)
  from Cons.prems show ?case
    unfolding c
    by (auto simp: Let_def split: if_splits sum.splits bool.splits gnutls_ret.splits
        dest!: Cons.IH)
qed

lemma kept_record_send_gnutls: "record_send_gnutls es t = Some (r, t') \<Longrightarrow> kept t t'"
proof (induction es arbitrary: t)
  case Nil
  then show ?case by simp
next
  case (Cons c es)
  obtain cbs r where c: "c = (cbs, r)" by (cases c)
  from Cons.prems show ?case
    unfolding c
    by (auto simp: Let_def split: if_splits dest!: Cons.IH)
qed

lemma kept_try_gnutls: "try_gnutls es t = Some (f, es', t') \<Longrightarrow> kept t t'"
  unfolding try_gnutls_def
  by (auto split: if_splits option.splits prod.splits flow.splits
      dest!: kept_handshake_gnutls kept_record_recv_gnutls
      simp: kept_right [of _ _ t])


lemma body_gnutls_frame:
  assumes "body_gnutls es t = Some (f, t1)"
  shows "mPendingRecvCount t1 = mPendingRecvCount t - 1 \<and> poolTasks t1 = poolTasks t \<and>
         alive t1 = alive t \<and> eos t1 = eos t"
proof -
  let ?t0 = "t\<lparr>mPendingRecvCount := mPendingRecvCount t - 1\<rparr>"
  from assms obtain g es1 u where tr: "try_gnutls es ?t0 = Some (g, es1, u)"
    by (auto simp: body_gnutls_def split: option.splits)
  from kept_try_gnutls [OF tr] have k: "kept ?t0 u" .
  from assms tr have "kept u t1"
    by (auto simp: body_gnutls_def split: flow.splits list.splits)
  with k have "kept ?t0 t1" by (rule kept_trans)
  then show ?thesis by (simp add: kept_def eos_def)
qed

lemma kept_handshake_mbedtls: "handshake_mbedtls es t = Some (f, es', t') \<Longrightarrow> kept t t'"
proof (induction es arbitrary: t)
  case Nil
  then show ?case by simp
next
  case (Cons c es)
  obtain cbs r where c: "c = (cbs, r)" by (cases c)
  obtain x u where e: "engine_mbedtls cbs t = (x, u)" by (cases "engine_mbedtls cbs t")
  from kept_engine_mbedtls [OF e] have k: "kept t u" .
  from Cons.prems have "kept u t'"
    unfolding c using e
    by (auto split: if_splits sum.splits option.splits dest!: Cons.IH)
  with k show ?case by (rule kept_trans)
qed

lemma kept_ssl_read_mbedtls: "ssl_read_mbedtls es t = Some (f, es', t') \<Longrightarrow> kept t t'"
proof (induction es arbitrary: t)
  case Nil
  then show ?case by simp
next
  case (Cons c es)
  obtain cbs r where c: "c = (cbs, r)" by (cases c)
  obtain x u where e: "engine_mbedtls cbs t = (x, u)" by (cases "engine_mbedtls cbs t")
  from kept_engine_mbedtls [OF e] have k: "kept t u" .
  from Cons.prems have "kept u t'"
    unfolding c using e
    by (auto split: if_splits sum.splits option.splits mbedtls_ret.splits dest!: Cons.IH)
  with k show ?case by (rule kept_trans)
qed

lemma kept_try_mbedtls: "try_mbedtls es t = Some (f, es', t') \<Longrightarrow> kept t t'"
  unfolding try_mbedtls_def
  by (auto split: if_splits option.splits prod.splits flow.splits
      dest!: kept_handshake_mbedtls kept_ssl_read_mbedtls intro: kept_trans)

lemma body_mbedtls_frame:
  assumes "body_mbedtls es t = Some (f, t1)"
  shows "mPendingRecvCount t1 = mPendingRecvCount t - 1 \<and> poolTasks t1 = poolTasks t \<and>
         alive t1 = alive t \<and> eos t1 = eos t"
proof -
  let ?t0 = "t\<lparr>mPendingRecvCount := mPendingRecvCount t - 1\<rparr>"
  from assms have "kept ?t0 t1"
    by (auto simp: body_mbedtls_def Let_def split: if_splits option.splits flow.splits
        dest!: kept_try_mbedtls)
  then show ?thesis by (simp add: kept_def eos_def)
qed

lemma kept_ssl_read_openssl: "ssl_read_openssl es t = Some (r, es', t') \<Longrightarrow> kept t t'"
proof (induction es arbitrary: t)
  case Nil
  then show ?case by simp
next
  case (Cons c es)
  from Cons.prems show ?case
    by (auto simp: Let_def split: openssl_ret.splits dest!: Cons.IH)
qed

lemma kept_connecting_openssl: "connecting_openssl es t = Some (f, es', t') \<Longrightarrow> kept t t'"
  unfolding connecting_openssl_def
  by (auto simp: Let_def split: if_splits list.splits sum.splits bool.splits prod.splits
      dest!: kept_flushOutput)

lemma kept_connected_openssl: "connected_openssl es t = Some (f, es', t') \<Longrightarrow> kept t t'"
  unfolding connected_openssl_def
  by (auto split: if_splits option.splits sum.splits bool.splits
      dest!: kept_ssl_read_openssl)

lemma kept_process_openssl: "process_openssl q es t = Some (f, es', t') \<Longrightarrow> kept t t'"
proof (induction q arbitrary: es t)
  case Nil
  then show ?case by (auto split: if_splits)
next
  case (Cons m q)
  show ?case
  proof (cases "queue_running t")
    case False
    with Cons.prems show ?thesis by simp
  next
    case True
    let ?t2 = "input_openssl m (t\<lparr>mIncomingQueue := q\<rparr>)"
    have k2: "kept t ?t2" by simp
    from True Cons.prems obtain g es3 t3 where c1: "connecting_openssl es ?t2 = Some (g, es3, t3)"
      by (auto simp: Let_def split: option.splits)
    from kept_connecting_openssl [OF c1] k2 have k3: "kept t t3" by (rule kept_trans [rotated])
    show ?thesis
    proof (cases "g = Next")
      case False
      with True Cons.prems c1 have "t' = t3" by (auto simp: Let_def split: flow.splits)
      with k3 show ?thesis by simp
    next
      case g: True
      from True Cons.prems c1 g obtain h es4 t4 where c2: "connected_openssl es3 t3 = Some (h, es4, t4)"
        by (auto simp: Let_def split: option.splits)
      from kept_connected_openssl [OF c2] k3 have k4: "kept t t4" by (rule kept_trans [rotated])
      show ?thesis
      proof (cases "h = Next")
        case False
        with True Cons.prems c1 c2 g have "t' = t4" by (auto simp: Let_def split: flow.splits)
        with k4 show ?thesis by simp
      next
        case h: True
        with True Cons.prems c1 c2 g have "process_openssl q es4 t4 = Some (f, es', t')"
          by (simp add: Let_def)
        from Cons.IH [OF this] k4 show ?thesis by (rule kept_trans [rotated])
      qed
    qed
  qed
qed

lemma body_openssl_frame:
  assumes "body_openssl es t = Some (f, t1)"
  shows "mPendingRecvCount t1 = mPendingRecvCount t - 1 \<and> poolTasks t1 = poolTasks t \<and>
         alive t1 = alive t \<and> eos t1 = eos t"
proof -
  let ?t0 = "t\<lparr>mPendingRecvCount := mPendingRecvCount t - 1\<rparr>"
  from assms have "kept ?t0 t1"
    by (auto simp: body_openssl_def Let_def split: if_splits option.splits flow.splits list.splits
        dest!: kept_process_openssl)
  then show ?thesis by (simp add: kept_def eos_def)
qed


section \<open>Terminal resolution\<close>

lemma eos_recv_None: "eos (recv None t) = eos t + 1"
  by (simp add: eos_def recv_def)

lemma eos_changeState: "eos (changeState st t) = eos t"
  by (simp add: eos_def changeState_def)



lemma resolve_mbedtls_eq: "resolve_mbedtls t = resolve_gnutls t"
  by (simp add: resolve_mbedtls_def resolve_gnutls_def)

lemma resolve_openssl_eq: "resolve_openssl t = resolve_gnutls t"
  by (simp add: resolve_openssl_def resolve_gnutls_def)





lemmas run_defs =
  fresh_def initial_def queue_running_def changeState_def recv_def registerIncoming_def unregisterIncoming_def
  Transport_outgoing_def queue_push_def queue_stop_def enqueueRecv_def nextMessage_def
  outgoing_gnutls_def WriteCallback_gnutls_def ReadCallback_gnutls_def TimeoutCallback_gnutls_def
  postHandshake_def start_gnutls_def stop_gnutls_def incoming_gnutls_def send_gnutls_def
  try_gnutls_def body_gnutls_def resolve_gnutls_def doRecv_gnutls_def
  outgoing_mbedtls_def WriteCallback_mbedtls_def ReadCallback_mbedtls_def
  start_mbedtls_def stop_mbedtls_def incoming_mbedtls_def send_mbedtls_def
  try_mbedtls_def body_mbedtls_def resolve_mbedtls_def doRecv_mbedtls_def
  InfoCallback_def engine_openssl_def BIO_write_def outgoing_openssl_def flushOutput_def
  start_openssl_def stop_openssl_def incoming_openssl_def send_openssl_def
  connecting_openssl_def connected_openssl_def input_openssl_def body_openssl_def
  resolve_openssl_def doRecv_openssl_def takeTask_def eos_def Let_def


subsection \<open>From the loops to the resolution\<close>

lemma popLoop_state [simp]:
  "state (popLoop q t) = state t" "notified (popLoop q t) = notified t"
  by (induction q arbitrary: t) (simp_all add: recv_def)

lemma nextMessage_state [simp]:
  "state (nextMessage t) = state t" "notified (nextMessage t) = notified t"
  by (simp_all add: nextMessage_def Let_def split: option.splits)

lemma Transport_outgoing_state:
  "Transport_outgoing m t = (r, t') \<Longrightarrow> state t' = state t \<and> notified t' = notified t"
  by (auto simp: Transport_outgoing_def Let_def split: reply.splits)

lemma callback_gnutls_state [simp]:
  "state (callback_gnutls c t) = state t" "notified (callback_gnutls c t) = notified t"
  by (cases c;
      simp add: ReadCallback_gnutls_def WriteCallback_gnutls_def TimeoutCallback_gnutls_def
        outgoing_gnutls_def Transport_outgoing_def Let_def
        split: option.splits reply.splits)+

lemma engine_gnutls_state [simp]:
  "state (engine_gnutls cs t) = state t" "notified (engine_gnutls cs t) = notified t"
  by (induction cs arbitrary: t) simp_all





lemma kept_decrement:
  "kept (t\<lparr>mPendingRecvCount := mPendingRecvCount t - 1\<rparr>) u \<Longrightarrow> eos u = eos t"
  by (simp add: kept_def eos_def)

















lemma engine_openssl_state [simp]:
  "state (engine_openssl c t) = state t" "notified (engine_openssl c t) = notified t"
  by (simp_all add: engine_openssl_def InfoCallback_def queue_stop_def Let_def)

lemma input_openssl_state [simp]:
  "state (input_openssl m t) = state t" "notified (input_openssl m t) = notified t"
  by (simp_all add: input_openssl_def BIO_write_def recv_def)











section \<open>Rejected sends\<close>

text \<open>
  Claim C3. In every state other than \<open>Connected\<close>, \<^verbatim>\<open>send\<close> throws at once, for every
  message and in the three variants: the instance is left as it was, so nothing is
  handed to the record layer or to the lower transport, and no engine call is made (the
  script is not read).
\<close>

theorem send_rejected_outside_Connected:
  "state t \<noteq> Connected \<Longrightarrow>
     send_gnutls m eg t = Some (Inl TlsNotOpen, t) \<and>
     send_mbedtls m em t = Some (Inl TlsNotOpen, t) \<and>
     send_openssl m eo t = Some (Inl TlsNotOpen, t)"
  by (simp add: send_gnutls_def send_mbedtls_def send_openssl_def)

theorem send_rejected_outside_Connected_witness:
  "state (start_gnutls fresh) \<noteq> Connected \<and>
   send_gnutls (Some [1, 2]) [([Push [23]], GNUTLS_OK [1, 2])]
       (start_gnutls fresh)
     = Some (Inl TlsNotOpen, start_gnutls fresh) \<and>
   send_mbedtls (Some [1, 2]) [([BioSend [23]], MBEDTLS_OK [1, 2])]
       (start_gnutls fresh)
     = Some (Inl TlsNotOpen, start_gnutls fresh) \<and>
   send_openssl (Some [1, 2]) [Call False [23] (SSL_POSITIVE [1, 2]) True]
       (start_gnutls fresh)
     = Some (Inl TlsNotOpen, start_gnutls fresh) \<and>
   sent (start_gnutls fresh) = []"
proof -
  have h: "state (start_gnutls fresh) \<noteq> Connected"
    by (simp add: run_defs)
  have s: "sent (start_gnutls fresh) = []"
    by (simp add: run_defs)
  from h s send_rejected_outside_Connected [OF h] show ?thesis by simp
qed

section \<open>Scheduling\<close>

lemma enqueueRecv_pending: "mPendingRecvCount t > 0 \<Longrightarrow> enqueueRecv t = t"
  by (simp add: enqueueRecv_def)

lemma enqueueRecv_edge:
  "mPendingRecvCount t = 0 \<Longrightarrow> alive t \<Longrightarrow>
     mPendingRecvCount (enqueueRecv t) = 1 \<and> poolTasks (enqueueRecv t) = poolTasks t + 1"
  by (simp add: enqueueRecv_def)

lemma doRecv_gnutls_decrements:
  assumes "doRecv_gnutls es t = Some t'"
  shows "mPendingRecvCount t' = mPendingRecvCount t - 1 \<and> poolTasks t' = poolTasks t \<and>
         alive t' = alive t"
proof -
  from assms obtain f t1 where b: "body_gnutls es t = Some (f, t1)"
    and t': "t' = t1 \<or> t' = resolve_gnutls t1"
    by (auto simp: doRecv_gnutls_def split: option.splits flow.splits)
  have "mPendingRecvCount (resolve_gnutls t1) = mPendingRecvCount t1 \<and>
        poolTasks (resolve_gnutls t1) = poolTasks t1 \<and> alive (resolve_gnutls t1) = alive t1"
    by (simp add: resolve_gnutls_def recv_def changeState_def)
  with body_gnutls_frame [OF b] t' show ?thesis by auto
qed

lemma doRecv_mbedtls_decrements:
  assumes "doRecv_mbedtls es t = Some t'"
  shows "mPendingRecvCount t' = mPendingRecvCount t - 1 \<and> poolTasks t' = poolTasks t \<and>
         alive t' = alive t"
proof -
  from assms obtain f t1 where b: "body_mbedtls es t = Some (f, t1)"
    and t': "t' = t1 \<or> t' = resolve_mbedtls t1"
    by (auto simp: doRecv_mbedtls_def split: option.splits flow.splits)
  have "mPendingRecvCount (resolve_mbedtls t1) = mPendingRecvCount t1 \<and>
        poolTasks (resolve_mbedtls t1) = poolTasks t1 \<and> alive (resolve_mbedtls t1) = alive t1"
    by (simp add: resolve_mbedtls_def recv_def changeState_def)
  with body_mbedtls_frame [OF b] t' show ?thesis by auto
qed

lemma doRecv_openssl_decrements:
  assumes "doRecv_openssl es t = Some t'"
  shows "mPendingRecvCount t' = mPendingRecvCount t - 1 \<and> poolTasks t' = poolTasks t \<and>
         alive t' = alive t"
proof -
  from assms obtain f t1 where b: "body_openssl es t = Some (f, t1)"
    and t': "t' = t1 \<or> t' = resolve_openssl t1"
    by (auto simp: doRecv_openssl_def split: option.splits flow.splits)
  have "mPendingRecvCount (resolve_openssl t1) = mPendingRecvCount t1 \<and>
        poolTasks (resolve_openssl t1) = poolTasks t1 \<and> alive (resolve_openssl t1) = alive t1"
    by (simp add: resolve_openssl_def recv_def changeState_def)
  with body_openssl_frame [OF b] t' show ?thesis by auto
qed

text \<open>The counter equals the number of waiting tasks, and there is at most one.\<close>

lemma enqueueRecv_coalesced:
  "mPendingRecvCount t = int (poolTasks t) \<and> poolTasks t \<le> 1 \<Longrightarrow>
   mPendingRecvCount (enqueueRecv t) = int (poolTasks (enqueueRecv t)) \<and>
   poolTasks (enqueueRecv t) \<le> 1"
  by (auto simp: enqueueRecv_def)

lemma kept_coalesced:
  "kept t t' \<Longrightarrow> mPendingRecvCount t = int (poolTasks t) \<and> poolTasks t \<le> 1 \<Longrightarrow>
   mPendingRecvCount t' = int (poolTasks t') \<and> poolTasks t' \<le> 1"
  by (simp add: kept_def)

lemma kept_send_gnutls: "send_gnutls m es t = Some (r, t') \<Longrightarrow> kept t t'"
  unfolding send_gnutls_def
  by (auto split: if_splits option.splits sum.splits bool.splits
      dest!: kept_record_send_gnutls kept_outgoing_gnutls)

lemma kept_send_mbedtls: "send_mbedtls m es t = Some (r, t') \<Longrightarrow> kept t t'"
  unfolding send_mbedtls_def
  by (auto split: if_splits option.splits sum.splits bool.splits list.splits prod.splits
      dest!: kept_engine_mbedtls kept_outgoing_mbedtls)

lemma kept_send_openssl: "send_openssl m es t = Some (r, t') \<Longrightarrow> kept t t'"
  unfolding send_openssl_def
  by (auto simp: Let_def split: if_splits option.splits sum.splits bool.splits list.splits
      dest!: kept_flushOutput kept_outgoing_openssl)

lemma kept_start_openssl: "start_openssl es t = Some (r, t') \<Longrightarrow> kept t t'"
  unfolding start_openssl_def registerIncoming_def
  by (auto simp: Let_def split: if_splits option.splits sum.splits list.splits prod.splits
      dest!: kept_flushOutput)


lemma coalesced_step_gnutls:
  assumes "step_gnutls x t = Some t'"
    and "mPendingRecvCount t = int (poolTasks t) \<and> poolTasks t \<le> 1"
  shows "mPendingRecvCount t' = int (poolTasks t') \<and> poolTasks t' \<le> 1"
proof (cases x)
  case (Start es)
  with assms show ?thesis
    using enqueueRecv_coalesced [of "changeState Connecting (registerIncoming t)"]
    by (simp add: start_gnutls_def changeState_def registerIncoming_def)
next
  case Stop
  with assms show ?thesis
    using enqueueRecv_coalesced [of "queue_stop (unregisterIncoming t)"]
    by (simp add: stop_gnutls_def queue_stop_def unregisterIncoming_def)
next
  case (Incoming m)
  with assms show ?thesis
    using enqueueRecv_coalesced [of "queue_stop t"] enqueueRecv_coalesced [of "queue_push (the m) t"]
    by (cases m) (simp_all add: incoming_gnutls_def queue_stop_def queue_push_def)
next
  case (Send m es)
  with assms obtain r where "send_gnutls m es t = Some (r, t')" by auto
  from kept_coalesced [OF kept_send_gnutls [OF this] assms(2)] show ?thesis .
next
  case (Task es)
  with assms have p: "poolTasks t = 1" and d: "doRecv_gnutls es (takeTask t) = Some t'"
    by (auto split: if_splits)
  from doRecv_gnutls_decrements [OF d] p assms(2) show ?thesis
    by (simp add: takeTask_def)
qed

lemma coalesced_exec_gnutls:
  "exec_gnutls xs t = Some t' \<Longrightarrow>
   mPendingRecvCount t = int (poolTasks t) \<and> poolTasks t \<le> 1 \<Longrightarrow>
   mPendingRecvCount t' = int (poolTasks t') \<and> poolTasks t' \<le> 1"
proof (induction xs arbitrary: t)
  case Nil
  then show ?case by simp
next
  case (Cons x xs)
  from Cons.prems(1) obtain t1 where s: "step_gnutls x t = Some t1"
    and e: "exec_gnutls xs t1 = Some t'"
    by (auto split: option.splits)
  from Cons.IH [OF e coalesced_step_gnutls [OF s Cons.prems(2)]] show ?case .
qed

lemma coalesced_step_mbedtls:
  assumes "step_mbedtls x t = Some t'"
    and "mPendingRecvCount t = int (poolTasks t) \<and> poolTasks t \<le> 1"
  shows "mPendingRecvCount t' = int (poolTasks t') \<and> poolTasks t' \<le> 1"
proof (cases x)
  case (Start es)
  with assms show ?thesis
    using enqueueRecv_coalesced [of "changeState Connecting (registerIncoming t)"]
    by (simp add: start_mbedtls_def changeState_def registerIncoming_def)
next
  case Stop
  with assms show ?thesis
    using enqueueRecv_coalesced [of "queue_stop (unregisterIncoming t)"]
    by (simp add: stop_mbedtls_def queue_stop_def unregisterIncoming_def)
next
  case (Incoming m)
  with assms show ?thesis
    using enqueueRecv_coalesced [of "queue_stop t"] enqueueRecv_coalesced [of "queue_push (the m) t"]
    by (cases m) (simp_all add: incoming_mbedtls_def queue_stop_def queue_push_def)
next
  case (Send m es)
  with assms obtain r where "send_mbedtls m es t = Some (r, t')" by auto
  from kept_coalesced [OF kept_send_mbedtls [OF this] assms(2)] show ?thesis .
next
  case (Task es)
  with assms have p: "poolTasks t = 1" and d: "doRecv_mbedtls es (takeTask t) = Some t'"
    by (auto split: if_splits)
  from doRecv_mbedtls_decrements [OF d] p assms(2) show ?thesis
    by (simp add: takeTask_def)
qed

lemma coalesced_exec_mbedtls:
  "exec_mbedtls xs t = Some t' \<Longrightarrow>
   mPendingRecvCount t = int (poolTasks t) \<and> poolTasks t \<le> 1 \<Longrightarrow>
   mPendingRecvCount t' = int (poolTasks t') \<and> poolTasks t' \<le> 1"
proof (induction xs arbitrary: t)
  case Nil
  then show ?case by simp
next
  case (Cons x xs)
  from Cons.prems(1) obtain t1 where s: "step_mbedtls x t = Some t1"
    and e: "exec_mbedtls xs t1 = Some t'"
    by (auto split: option.splits)
  from Cons.IH [OF e coalesced_step_mbedtls [OF s Cons.prems(2)]] show ?case .
qed

lemma coalesced_step_openssl:
  assumes "step_openssl x t = Some t'"
    and "mPendingRecvCount t = int (poolTasks t) \<and> poolTasks t \<le> 1"
  shows "mPendingRecvCount t' = int (poolTasks t') \<and> poolTasks t' \<le> 1"
proof (cases x)
  case (Start es)
  with assms obtain r where "start_openssl es t = Some (r, t')" by auto
  from kept_coalesced [OF kept_start_openssl [OF this] assms(2)] show ?thesis .
next
  case Stop
  with assms show ?thesis
    using enqueueRecv_coalesced [of "queue_stop (unregisterIncoming t)"]
    by (simp add: stop_openssl_def queue_stop_def unregisterIncoming_def)
next
  case (Incoming m)
  with assms show ?thesis
    using enqueueRecv_coalesced [of "queue_stop t"] enqueueRecv_coalesced [of "queue_push (the m) t"]
    by (cases m) (simp_all add: incoming_openssl_def queue_stop_def queue_push_def)
next
  case (Send m es)
  with assms obtain r where "send_openssl m es t = Some (r, t')" by auto
  from kept_coalesced [OF kept_send_openssl [OF this] assms(2)] show ?thesis .
next
  case (Task es)
  with assms have p: "poolTasks t = 1" and d: "doRecv_openssl es (takeTask t) = Some t'"
    by (auto split: if_splits)
  from doRecv_openssl_decrements [OF d] p assms(2) show ?thesis
    by (simp add: takeTask_def)
qed

lemma coalesced_exec_openssl:
  "exec_openssl xs t = Some t' \<Longrightarrow>
   mPendingRecvCount t = int (poolTasks t) \<and> poolTasks t \<le> 1 \<Longrightarrow>
   mPendingRecvCount t' = int (poolTasks t') \<and> poolTasks t' \<le> 1"
proof (induction xs arbitrary: t)
  case Nil
  then show ?case by simp
next
  case (Cons x xs)
  from Cons.prems(1) obtain t1 where s: "step_openssl x t = Some t1"
    and e: "exec_openssl xs t1 = Some t'"
    by (auto split: option.splits)
  from Cons.IH [OF e coalesced_step_openssl [OF s Cons.prems(2)]] show ?case .
qed


lemma coalesced_initial:
  "mPendingRecvCount (initial a r l) = int (poolTasks (initial a r l)) \<and>
   poolTasks (initial a r l) \<le> 1"
  by (simp add: initial_def)

lemma coalesced_values:
  "mPendingRecvCount t = int (poolTasks t) \<and> poolTasks t \<le> 1 \<Longrightarrow>
   mPendingRecvCount t \<in> {0, 1} \<and> mPendingRecvCount t = int (poolTasks t)"
  by auto

text \<open>
  Claim C4. \<^verbatim>\<open>enqueueRecv\<close> does nothing when the counter is above zero; when the
  counter is zero and the instance is alive it sets the counter to one and puts exactly
  one task in the pool; every \<^verbatim>\<open>doRecv\<close> that returns has decremented the counter;
  and along every run of operations from a new instance, with \<^verbatim>\<open>doRecv\<close> run only for
  a task taken from the pool, the counter is 0 or 1 and equals the number of waiting
  tasks. Operations are the steps of a run: the check and the increment of
  \<^verbatim>\<open>enqueueRecv\<close> are not interleaved with other threads here.
\<close>

theorem enqueueRecv_coalesces:
  "(mPendingRecvCount t > 0 \<longrightarrow> enqueueRecv t = t) \<and>
   (mPendingRecvCount t = 0 \<and> alive t \<longrightarrow>
      mPendingRecvCount (enqueueRecv t) = 1 \<and> poolTasks (enqueueRecv t) = poolTasks t + 1) \<and>
   (doRecv_gnutls eg t = Some tG \<longrightarrow> mPendingRecvCount tG = mPendingRecvCount t - 1) \<and>
   (doRecv_mbedtls em t = Some tM \<longrightarrow> mPendingRecvCount tM = mPendingRecvCount t - 1) \<and>
   (doRecv_openssl eo t = Some tO \<longrightarrow> mPendingRecvCount tO = mPendingRecvCount t - 1) \<and>
   (exec_gnutls xg (initial a r l) = Some uG \<longrightarrow>
      mPendingRecvCount uG \<in> {0, 1} \<and> mPendingRecvCount uG = int (poolTasks uG)) \<and>
   (exec_mbedtls xm (initial a r l) = Some uM \<longrightarrow>
      mPendingRecvCount uM \<in> {0, 1} \<and> mPendingRecvCount uM = int (poolTasks uM)) \<and>
   (exec_openssl xo (initial a r l) = Some uO \<longrightarrow>
      mPendingRecvCount uO \<in> {0, 1} \<and> mPendingRecvCount uO = int (poolTasks uO))"
  using enqueueRecv_pending [of t] enqueueRecv_edge [of t]
    doRecv_gnutls_decrements [of eg t tG] doRecv_mbedtls_decrements [of em t tM]
    doRecv_openssl_decrements [of eo t tO]
    coalesced_values [OF coalesced_exec_gnutls [OF _ coalesced_initial], of xg a r l uG]
    coalesced_values [OF coalesced_exec_mbedtls [OF _ coalesced_initial], of xm a r l uM]
    coalesced_values [OF coalesced_exec_openssl [OF _ coalesced_initial], of xo a r l uO]
  by blast


theorem enqueueRecv_coalesces_witness:
  "enqueueRecv (start_gnutls fresh) = start_gnutls fresh \<and>
   mPendingRecvCount (enqueueRecv fresh) = 1 \<and> poolTasks (enqueueRecv fresh) = 1 \<and>
   map_option mPendingRecvCount
     (doRecv_gnutls [([Pull 5], GNUTLS_E_AGAIN)] (start_gnutls fresh)) = Some 0 \<and>
   map_option mPendingRecvCount
     (doRecv_mbedtls [([BioRecv 5], MBEDTLS_ERR_SSL_WANT_READ)] (start_gnutls fresh)) = Some 0 \<and>
   map_option mPendingRecvCount (doRecv_openssl [] (start_gnutls fresh)) = Some 0 \<and>
   map_option (\<lambda>u. (mPendingRecvCount u, poolTasks u))
     (exec_gnutls
        [Start [], Stop, Incoming (Some [1]), Task [([Pull 5], GNUTLS_E_AGAIN)], Stop] fresh)
     = Some (1, 1) \<and>
   map_option (\<lambda>u. (mPendingRecvCount u, poolTasks u))
     (exec_mbedtls
        [Start [], Stop, Incoming (Some [1]), Task [([BioRecv 5], MBEDTLS_ERR_SSL_WANT_READ)],
         Stop] fresh)
     = Some (1, 1) \<and>
   map_option (\<lambda>u. (mPendingRecvCount u, poolTasks u))
     (exec_openssl
        [Start [Call False [22] SSL_ERROR_WANT_READ False], Incoming (Some [1]),
         Incoming (Some [2]),
         Task [Call False [] SSL_ERROR_WANT_READ False, Call False [] SSL_ERROR_WANT_READ False],
         Stop] fresh)
     = Some (1, 1)"
proof -
  let ?xg = "[Start [], Stop, Incoming (Some [1]), Task [([Pull 5], GNUTLS_E_AGAIN)], Stop]"
  let ?xm = "[Start [], Stop, Incoming (Some [1]),
              Task [([BioRecv 5], MBEDTLS_ERR_SSL_WANT_READ)], Stop]"
  let ?xo = "[Start [Call False [22] SSL_ERROR_WANT_READ False], Incoming (Some [1]),
              Incoming (Some [2]),
              Task [Call False [] SSL_ERROR_WANT_READ False,
                    Call False [] SSL_ERROR_WANT_READ False],
              Stop]"
  let ?eg = "[([Pull 5], GNUTLS_E_AGAIN)]"
  let ?em = "[([BioRecv 5], MBEDTLS_ERR_SSL_WANT_READ)]"
  have g: "exec_gnutls ?xg fresh = Some (the (exec_gnutls ?xg fresh))"
    by (simp add: run_defs)
  have m: "exec_mbedtls ?xm fresh = Some (the (exec_mbedtls ?xm fresh))"
    by (simp add: run_defs)
  have o: "exec_openssl ?xo fresh = Some (the (exec_openssl ?xo fresh))"
    by (simp add: run_defs)
  have dg: "doRecv_gnutls ?eg (start_gnutls fresh)
      = Some (the (doRecv_gnutls ?eg (start_gnutls fresh)))"
    by (simp add: run_defs)
  have dm: "doRecv_mbedtls ?em (start_gnutls fresh)
      = Some (the (doRecv_mbedtls ?em (start_gnutls fresh)))"
    by (simp add: run_defs)
  have dO: "doRecv_openssl [] (start_gnutls fresh)
      = Some (the (doRecv_openssl [] (start_gnutls fresh)))"
    by (simp add: run_defs)
  have p: "mPendingRecvCount (start_gnutls fresh) > 0"
    by (simp add: run_defs)
  have z: "mPendingRecvCount fresh = 0 \<and> alive fresh"
    by (simp add: run_defs)
  from g m o dg dm dO p z
    enqueueRecv_coalesces [of "start_gnutls fresh"
      ?eg "the (doRecv_gnutls ?eg (start_gnutls fresh))"
      ?em "the (doRecv_mbedtls ?em (start_gnutls fresh))"
      "[]" "the (doRecv_openssl [] (start_gnutls fresh))"
      ?xg True True "\<lambda>k. Accepted" "the (exec_gnutls ?xg fresh)"
      ?xm "the (exec_mbedtls ?xm fresh)"
      ?xo "the (exec_openssl ?xo fresh)"]
    enqueueRecv_coalesces [of fresh]
  show ?thesis
    by (simp add: run_defs)
qed


section \<open>Terminal states\<close>



lemma stop_keeps_state:
  "state (stop_gnutls t) = state t \<and> received (stop_gnutls t) = received t \<and>
   state (stop_mbedtls t) = state t \<and> received (stop_mbedtls t) = received t \<and>
   state (stop_openssl t) = state t \<and> received (stop_openssl t) = received t"
  by (simp add: stop_gnutls_def stop_mbedtls_def stop_openssl_def enqueueRecv_def queue_stop_def
      unregisterIncoming_def)

text \<open>
  Claim C2. The terminal states are not final in the GnuTLS variant, whose \<^verbatim>\<open>doRecv\<close>
  has no check of the state at its start: after a session was closed by the peer
  (\<open>Disconnected\<close>, one end-of-stream signal), a further \<^verbatim>\<open>stop\<close> schedules a task and
  that task changes the state to \<open>Failed\<close> and notifies the observer. On the same
  operations the MbedTLS variant, which returns at once in such a state, stays
  \<open>Disconnected\<close>.
\<close>

theorem gnutls_doRecv_leaves_terminal_state:
  "map_option (\<lambda>t. (state t, notified t, received t))
     (exec_gnutls
        [Start [], Task [([Push [22]], GNUTLS_OK []), ([Pull 5], GNUTLS_E_AGAIN)],
         Incoming None, Task [([Pull 5], GNUTLS_OK []), ([Push [21]], GNUTLS_OK [])]] fresh)
     = Some (Disconnected, [Connecting, Connected, Disconnected], [None]) \<and>
   map_option (\<lambda>t. (state t, notified t, received t))
     (exec_gnutls
        [Start [], Task [([Push [22]], GNUTLS_OK []), ([Pull 5], GNUTLS_E_AGAIN)],
         Incoming None, Task [([Pull 5], GNUTLS_OK []), ([Push [21]], GNUTLS_OK [])],
         Stop, Task [([], GNUTLS_OK [])]] fresh)
     = Some (Failed, [Connecting, Connected, Disconnected, Failed], [None]) \<and>
   map_option (\<lambda>t. (state t, notified t, received t))
     (exec_mbedtls
        [Start [], Task [([BioSend [22]], MBEDTLS_OK []), ([BioRecv 5], MBEDTLS_ERR_SSL_WANT_READ)],
         Incoming None, Task [([BioRecv 5], MBEDTLS_OK [])],
         Stop, Task []] fresh)
     = Some (Disconnected, [Connecting, Connected, Disconnected], [None])"
  by (simp add: run_defs)

section \<open>The pull callback\<close>

lemma ReadCallback_gnutls_serves:
  assumes "mIncomingMessage t = Some m" and "mIncomingMessagePosition t < length m"
  shows "ReadCallback_gnutls maxlen t =
           (Inr (int (min maxlen (length m - mIncomingMessagePosition t)), ENONE,
                 take (min maxlen (length m - mIncomingMessagePosition t))
                      (drop (mIncomingMessagePosition t) m)),
            t\<lparr>mIncomingMessagePosition :=
                 mIncomingMessagePosition t + min maxlen (length m - mIncomingMessagePosition t)\<rparr>)"
  using assms by (simp add: ReadCallback_gnutls_def nextMessage_def Let_def)

lemma ReadCallback_gnutls_next_buffer:
  assumes "mIncomingMessage t = None \<or>
           (\<exists>m0. mIncomingMessage t = Some m0 \<and> length m0 \<le> mIncomingMessagePosition t)"
    and "mIncomingQueue t = m # q" and "m \<noteq> []"
  shows "ReadCallback_gnutls maxlen t =
           (Inr (int (min maxlen (length m)), ENONE, take (min maxlen (length m)) m),
            t\<lparr>mIncomingQueue := q, mIncomingMessage := Some m,
              mIncomingMessagePosition := min maxlen (length m)\<rparr>)"
  using assms by (auto simp: ReadCallback_gnutls_def nextMessage_def Let_def)

lemma ReadCallback_gnutls_empty_queue:
  assumes "mIncomingMessage t = None \<or>
           (\<exists>m0. mIncomingMessage t = Some m0 \<and> length m0 \<le> mIncomingMessagePosition t)"
    and "mIncomingQueue t = []"
  shows "fst (ReadCallback_gnutls maxlen t) =
           (if queueRunning t then Inr (- 1, EAGAIN, []) else Inr (0, ENONE, []))"
  using assms by (auto simp: ReadCallback_gnutls_def nextMessage_def queue_running_def Let_def)

text \<open>
  Claim C5. The pull callback does not report would-block whenever no buffer is
  available and the queue is running: when the last buffer of the queue is zero-sized,
  the loop passes it upward and leaves it in \<^verbatim>\<open>mIncomingMessage\<close>, so the callback
  serves zero bytes from it and returns 0, the end-of-stream signal, although the queue
  is running and empty. With an empty queue it returns -1 with \<open>EAGAIN\<close>.
\<close>

theorem ReadCallback_gnutls_zero_sized_tail:
  "fst (ReadCallback_gnutls 4096 (incoming_gnutls (Some []) fresh)) = Inr (0, ENONE, []) \<and>
   queueRunning (snd (ReadCallback_gnutls 4096 (incoming_gnutls (Some []) fresh))) \<and>
   mIncomingQueue (snd (ReadCallback_gnutls 4096 (incoming_gnutls (Some []) fresh))) = [] \<and>
   received (snd (ReadCallback_gnutls 4096 (incoming_gnutls (Some []) fresh))) = [Some []] \<and>
   fst (ReadCallback_gnutls 4096 fresh) = Inr (- 1, EAGAIN, []) \<and>
   fst (ReadCallback_mbedtls 4096 (incoming_mbedtls (Some []) fresh)) = Inr (MBEDTLS_OK []) \<and>
   fst (ReadCallback_mbedtls 4096 fresh) = Inr MBEDTLS_ERR_SSL_WANT_READ"
  by (simp add: run_defs)

section \<open>Faults inside callbacks\<close>

lemma WriteCallback_gnutls_returns: "\<exists>r. fst (WriteCallback_gnutls d t) = Inr r"
  by (auto simp: WriteCallback_gnutls_def split: prod.splits sum.splits)

lemma ReadCallback_gnutls_returns: "\<exists>r. fst (ReadCallback_gnutls n t) = Inr r"
  by (auto simp: ReadCallback_gnutls_def Let_def split: option.splits)

lemma TimeoutCallback_gnutls_returns: "\<exists>r. fst (TimeoutCallback_gnutls t) = Inr r"
  by (auto simp: TimeoutCallback_gnutls_def split: option.splits)

lemma ReadCallback_mbedtls_returns: "\<exists>r. fst (ReadCallback_mbedtls n t) = Inr r"
  by (auto simp: ReadCallback_mbedtls_def Let_def split: option.splits)

lemma WriteCallback_gnutls_fault:
  "lowerSend t (length (sent t)) = Raises \<Longrightarrow> d \<noteq> [] \<Longrightarrow>
     fst (WriteCallback_gnutls d t) = Inr (- 1, ECONNRESET)"
  by (simp add: WriteCallback_gnutls_def outgoing_gnutls_def Transport_outgoing_def Let_def)

lemma WriteCallback_mbedtls_fault:
  "lowerSend t (length (sent t)) = Raises \<Longrightarrow>
     fst (WriteCallback_mbedtls d t) = Inl LowerFault"
  by (simp add: WriteCallback_mbedtls_def outgoing_mbedtls_def Transport_outgoing_def Let_def)

text \<open>
  Claim C7. The write callback of the MbedTLS variant has no handler: when the lower
  transport's send throws, the exception leaves the callback, crosses the engine and
  reaches the caller of \<^verbatim>\<open>send\<close>. The write callback of the GnuTLS variant returns -1
  with \<open>ECONNRESET\<close> on the same input.
\<close>

theorem WriteCallback_mbedtls_fault_escapes:
  "fst (WriteCallback_mbedtls [23] (fresh\<lparr>lowerSend := \<lambda>k. Raises\<rparr>)) = Inl LowerFault \<and>
   map_option fst
     (send_mbedtls (Some [1]) [([BioSend [23]], MBEDTLS_OK [1])]
        (fresh\<lparr>state := Connected, lowerSend := \<lambda>k. Raises\<rparr>)) = Some (Inl LowerFault) \<and>
   fst (WriteCallback_gnutls [23] (fresh\<lparr>lowerSend := \<lambda>k. Raises\<rparr>)) = Inr (- 1, ECONNRESET)"
  by (simp add: run_defs)


section \<open>The result of send\<close>

lemma stored_refl [simp]: "stored t t"
  by (simp add: stored_def)

lemma stored_trans:
  assumes a: "stored t t1" and b: "stored t1 t2"
  shows "stored t t2"
proof -
  from a b have l: "lowerSend t2 = lowerSend t" and l1: "lowerSend t1 = lowerSend t"
    by (simp_all add: stored_def)
  from a b have n: "length (sent t) \<le> length (sent t1)" "length (sent t1) \<le> length (sent t2)"
    by (simp_all add: stored_def)
  from a b have p: "take (length (sent t)) (sent t1) = sent t"
    "take (length (sent t1)) (sent t2) = sent t1"
    by (simp_all add: stored_def)
  have p2: "take (length (sent t)) (sent t2) = sent t"
  proof -
    have "take (length (sent t)) (sent t2) = take (length (sent t)) (take (length (sent t1)) (sent t2))"
      using n by (simp add: min_def)
    with p show ?thesis by simp
  qed
  show ?thesis
  proof (cases "sent t2 = sent t1")
    case True
    with a b l n p2 show ?thesis by (auto simp: stored_def split: if_splits)
  next
    case False
    have "sent t2 \<noteq> sent t"
    proof
      assume "sent t2 = sent t"
      with n have "length (sent t1) = length (sent t2)" by simp
      with p(2) have "sent t2 = sent t1" by simp
      with False show False by simp
    qed
    with False a b l l1 n p2 show ?thesis by (auto simp: stored_def split: if_splits)
  qed
qed

lemma stored_update [simp]:
  "stored t (u\<lparr>state := a1\<rparr>) = stored t u"
  "stored t (u\<lparr>notified := a2\<rparr>) = stored t u"
  "stored t (u\<lparr>mIncomingQueue := a4\<rparr>) = stored t u"
  "stored t (u\<lparr>mIncomingMessage := a6\<rparr>) = stored t u"
  "stored t (u\<lparr>mIncomingMessagePosition := a7\<rparr>) = stored t u"
  "stored t (u\<lparr>received := a8\<rparr>) = stored t u"
  by (simp_all add: stored_def)

lemma stored_popLoop [simp]: "stored t (popLoop q u) = stored t u"
  by (induction q arbitrary: u) (simp_all add: recv_def)

lemma stored_nextMessage [simp]: "stored t (nextMessage u) = stored t u"
  by (simp add: nextMessage_def Let_def split: option.splits)

lemma stored_outgoing_gnutls: "outgoing_gnutls m t = (r, t') \<Longrightarrow> stored t t'"
  by (auto simp: outgoing_gnutls_def Transport_outgoing_def stored_def Let_def
      split: reply.splits)

lemma stored_outgoing_mbedtls:
  "outgoing_mbedtls m t = (r, t') \<Longrightarrow> stored t t'"
  by (auto simp: outgoing_mbedtls_def Transport_outgoing_def stored_def Let_def
      split: reply.splits)

lemma stored_callback_gnutls: "stored t (callback_gnutls c t)"
proof (cases c)
  case (Pull n)
  then show ?thesis
    by (simp add: ReadCallback_gnutls_def Let_def split: option.splits)
next
  case (Push d)
  obtain r u where o: "outgoing_gnutls (Some d) t = (r, u)"
    by (cases "outgoing_gnutls (Some d) t")
  from stored_outgoing_gnutls [OF o] o Push show ?thesis
    by (auto simp: WriteCallback_gnutls_def split: sum.splits)
next
  case PullTimeout
  then show ?thesis
    by (simp add: TimeoutCallback_gnutls_def split: option.splits)
qed

lemma stored_engine_gnutls: "stored t (engine_gnutls cs t)"
proof (induction cs arbitrary: t)
  case Nil
  show ?case by simp
next
  case (Cons c cs)
  from stored_trans [OF stored_callback_gnutls Cons.IH] show ?case by simp
qed

lemma stored_record_send_gnutls: "record_send_gnutls es t = Some (r, t') \<Longrightarrow> stored t t'"
proof (induction es arbitrary: t)
  case Nil
  then show ?case by simp
next
  case (Cons c es)
  obtain cbs x where c: "c = (cbs, x)" by (cases c)
  have e: "stored t (engine_gnutls cbs t)" by (rule stored_engine_gnutls)
  from Cons.prems have "stored (engine_gnutls cbs t) t'"
    unfolding c by (auto simp: Let_def split: if_splits dest: Cons.IH)
  with e show ?case by (rule stored_trans)
qed

lemma stored_engine_mbedtls: "engine_mbedtls cs t = (None, t') \<Longrightarrow> stored t t'"
proof (induction cs arbitrary: t)
  case Nil
  then show ?case by simp
next
  case (Cons c cs)
  show ?case
  proof (cases c)
    case (BioRecv n)
    obtain r u where o: "ReadCallback_mbedtls n t = (r, u)" by (cases "ReadCallback_mbedtls n t")
    then have s: "stored t u"
      by (auto simp: ReadCallback_mbedtls_def Let_def split: option.splits if_splits)
    from Cons.prems BioRecv o have "engine_mbedtls cs u = (None, t')"
      by (auto split: sum.splits)
    from stored_trans [OF s Cons.IH [OF this]] show ?thesis .
  next
    case (BioSend d)
    obtain r u where o: "WriteCallback_mbedtls d t = (r, u)" by (cases "WriteCallback_mbedtls d t")
    then have s: "stored t u"
      by (auto simp: WriteCallback_mbedtls_def split: prod.splits sum.splits
          dest: stored_outgoing_mbedtls)
    from Cons.prems BioSend o have "engine_mbedtls cs u = (None, t')"
      by (auto split: sum.splits)
    from stored_trans [OF s Cons.IH [OF this]] show ?thesis .
  qed
qed

lemma send_gnutls_stored:
  assumes "state t = Connected" and "m \<noteq> []" and "send_gnutls (Some m) es t = Some (Inr b, t')"
  shows "b = mOutgoingResult t' \<and> stored t t'"
  using assms unfolding send_gnutls_def
  by (auto split: option.splits sum.splits bool.splits dest: stored_record_send_gnutls)

lemma send_mbedtls_stored:
  assumes "state t = Connected" and "m \<noteq> []" and "send_mbedtls (Some m) es t = Some (Inr b, t')"
  shows "b = mOutgoingResult t' \<and> stored t t'"
  using assms unfolding send_mbedtls_def
  by (auto split: option.splits sum.splits list.splits prod.splits dest: stored_engine_mbedtls)

lemma stored_cases:
  assumes "stored t t'"
  shows "(sent t' = sent t \<longrightarrow> mOutgoingResult t' = mOutgoingResult t) \<and>
         (sent t' \<noteq> sent t \<and> lowerSend t (length (sent t') - 1) = Accepted \<longrightarrow>
            mOutgoingResult t') \<and>
         (sent t' \<noteq> sent t \<and> lowerSend t (length (sent t') - 1) = Refused \<longrightarrow>
            \<not> mOutgoingResult t')"
  using assms by (auto simp: stored_def split: if_splits)

text \<open>
  Claim C10. In the GnuTLS and MbedTLS variants, a \<^verbatim>\<open>send\<close> of a message with bytes in
  the state \<open>Connected\<close> whose record write succeeds returns \<^verbatim>\<open>mOutgoingResult\<close> as it
  is after the engine call: when the call handed nothing to the lower transport, that is
  the value stored before the call, by an earlier push; when it handed something down
  and the lower transport answered the last message, it is that answer.
\<close>

theorem send_returns_stored_result:
  "state t = Connected \<Longrightarrow> m \<noteq> [] \<Longrightarrow>
     (send_gnutls (Some m) eg t = Some (Inr b, tG) \<longrightarrow>
        b = mOutgoingResult tG \<and>
        (sent tG = sent t \<longrightarrow> b = mOutgoingResult t) \<and>
        (sent tG \<noteq> sent t \<and> lowerSend t (length (sent tG) - 1) = Accepted \<longrightarrow> b) \<and>
        (sent tG \<noteq> sent t \<and> lowerSend t (length (sent tG) - 1) = Refused \<longrightarrow> \<not> b)) \<and>
     (send_mbedtls (Some m) em t = Some (Inr c, tM) \<longrightarrow>
        c = mOutgoingResult tM \<and>
        (sent tM = sent t \<longrightarrow> c = mOutgoingResult t) \<and>
        (sent tM \<noteq> sent t \<and> lowerSend t (length (sent tM) - 1) = Accepted \<longrightarrow> c) \<and>
        (sent tM \<noteq> sent t \<and> lowerSend t (length (sent tM) - 1) = Refused \<longrightarrow> \<not> c))"
proof (intro conjI impI)
  assume h: "state t = Connected" "m \<noteq> []"
  {
    assume s: "send_gnutls (Some m) eg t = Some (Inr b, tG)"
    from send_gnutls_stored [OF h s] have r: "b = mOutgoingResult tG" and st: "stored t tG"
      by simp_all
    from r show "b = mOutgoingResult tG" .
    from stored_cases [OF st] r show "sent tG = sent t \<Longrightarrow> b = mOutgoingResult t" by simp
    from stored_cases [OF st] r
    show "sent tG \<noteq> sent t \<and> lowerSend t (length (sent tG) - 1) = Accepted \<Longrightarrow> b" by simp
    from stored_cases [OF st] r
    show "sent tG \<noteq> sent t \<and> lowerSend t (length (sent tG) - 1) = Refused \<Longrightarrow> \<not> b" by simp
  }
  {
    assume s: "send_mbedtls (Some m) em t = Some (Inr c, tM)"
    from send_mbedtls_stored [OF h s] have r: "c = mOutgoingResult tM" and st: "stored t tM"
      by simp_all
    from r show "c = mOutgoingResult tM" .
    from stored_cases [OF st] r show "sent tM = sent t \<Longrightarrow> c = mOutgoingResult t" by simp
    from stored_cases [OF st] r
    show "sent tM \<noteq> sent t \<and> lowerSend t (length (sent tM) - 1) = Accepted \<Longrightarrow> c" by simp
    from stored_cases [OF st] r
    show "sent tM \<noteq> sent t \<and> lowerSend t (length (sent tM) - 1) = Refused \<Longrightarrow> \<not> c" by simp
  }
qed


theorem send_returns_stored_result_witness:
  "send_gnutls (Some [1]) [([], GNUTLS_OK [1])] (fresh\<lparr>state := Connected, mOutgoingResult := False\<rparr>)
     = Some (Inr False, fresh\<lparr>state := Connected, mOutgoingResult := False\<rparr>) \<and>
   send_mbedtls (Some [1]) [([], MBEDTLS_OK [1])] (fresh\<lparr>state := Connected, mOutgoingResult := False\<rparr>)
     = Some (Inr False, fresh\<lparr>state := Connected, mOutgoingResult := False\<rparr>) \<and>
   send_gnutls (Some [1]) [([Push [23]], GNUTLS_OK [1])]
       (fresh\<lparr>state := Connected, mOutgoingResult := False\<rparr>)
     = Some (Inr True,
             fresh\<lparr>state := Connected, mOutgoingResult := True, sent := [Some [23]]\<rparr>) \<and>
   send_mbedtls (Some [1]) [([BioSend [23]], MBEDTLS_OK [1])]
       (fresh\<lparr>state := Connected, lowerSend := \<lambda>k. Refused\<rparr>)
     = Some (Inr False,
             fresh\<lparr>state := Connected, mOutgoingResult := False, sent := [Some [23]],
                   lowerSend := \<lambda>k. Refused\<rparr>)"
proof -
  let ?t = "fresh\<lparr>state := Connected, mOutgoingResult := False\<rparr>"
  let ?r = "fresh\<lparr>state := Connected, lowerSend := \<lambda>k. Refused\<rparr>"
  have c: "state ?t = Connected" "state ?r = Connected" and n: "[1 :: byte] \<noteq> []"
    by simp_all
  have g0: "send_gnutls (Some [1]) [([], GNUTLS_OK [1])] ?t = Some (Inr False, ?t)"
    by (simp add: run_defs)
  have m0: "send_mbedtls (Some [1]) [([], MBEDTLS_OK [1])] ?t = Some (Inr False, ?t)"
    by (simp add: run_defs)
  have g1: "send_gnutls (Some [1]) [([Push [23]], GNUTLS_OK [1])] ?t
      = Some (Inr True, fresh\<lparr>state := Connected, mOutgoingResult := True, sent := [Some [23]]\<rparr>)"
    by (simp add: run_defs)
  have m1: "send_mbedtls (Some [1]) [([BioSend [23]], MBEDTLS_OK [1])] ?r
      = Some (Inr False,
              fresh\<lparr>state := Connected, mOutgoingResult := False, sent := [Some [23]],
                    lowerSend := \<lambda>k. Refused\<rparr>)"
    by (simp add: run_defs)
  from g0 m0 g1 m1
    send_returns_stored_result [OF c(1) n, of "[([], GNUTLS_OK [1])]" False ?t
      "[([], MBEDTLS_OK [1])]" False ?t]
    send_returns_stored_result [OF c(1) n, of "[([Push [23]], GNUTLS_OK [1])]" True
      "fresh\<lparr>state := Connected, mOutgoingResult := True, sent := [Some [23]]\<rparr>"]
    send_returns_stored_result [OF c(2) n, of _ _ _ "[([BioSend [23]], MBEDTLS_OK [1])]" False
      "fresh\<lparr>state := Connected, mOutgoingResult := False, sent := [Some [23]],
             lowerSend := \<lambda>k. Refused\<rparr>"]
  show ?thesis by simp
qed


section \<open>Zero-sized buffers\<close>








lemma engine_openssl_input:
  "mInBio (engine_openssl c t) = mInBio t \<and> mIncomingQueue (engine_openssl c t) = mIncomingQueue t"
  by (simp add: engine_openssl_def InfoCallback_def queue_stop_def Let_def)

lemma flushLoop_input:
  "flushLoop bio b t = (r, t') \<Longrightarrow> mInBio t' = mInBio t \<and> mIncomingQueue t' = mIncomingQueue t"
proof (induction bio b t rule: flushLoop.induct)
  case (1 bio result t)
  show ?case
  proof (cases "bio = []")
    case True
    with "1.prems" show ?thesis by auto
  next
    case False
    obtain x u where o: "outgoing_openssl (Some (take 4096 bio)) (t\<lparr>mOutBio := drop 4096 bio\<rparr>) = (x, u)"
      by (cases "outgoing_openssl (Some (take 4096 bio)) (t\<lparr>mOutBio := drop 4096 bio\<rparr>)")
    then have k: "mInBio u = mInBio t \<and> mIncomingQueue u = mIncomingQueue t"
      by (auto simp: outgoing_openssl_def Transport_outgoing_def Let_def split: reply.splits)
    show ?thesis
    proof (cases x)
      case (Inl e)
      with False o "1.prems" k show ?thesis by simp
    next
      case (Inr b')
      with False o "1.prems" have "flushLoop (drop 4096 bio) b' u = (r, t')" by simp
      from "1.IH" [OF False o [symmetric] Inr this] k show ?thesis by simp
    qed
  qed
qed

lemma ssl_read_openssl_input:
  "ssl_read_openssl es t = Some (r, es', t') \<Longrightarrow>
     mInBio t' = mInBio t \<and> mIncomingQueue t' = mIncomingQueue t"
proof (induction es arbitrary: t)
  case Nil
  then show ?case by simp
next
  case (Cons c es)
  from Cons.prems show ?case
    by (auto simp: Let_def engine_openssl_input recv_def split: openssl_ret.splits
        dest!: Cons.IH)
qed

lemma flushOutput_input:
  "flushOutput t = (r, t') \<Longrightarrow> mInBio t' = mInBio t \<and> mIncomingQueue t' = mIncomingQueue t"
  unfolding flushOutput_def by (rule flushLoop_input)

lemma connecting_openssl_input:
  assumes "connecting_openssl es t = Some (f, es', t')"
  shows "mInBio t' = mInBio t \<and> mIncomingQueue t' = mIncomingQueue t"
proof (cases "state t = Connecting")
  case False
  with assms show ?thesis by (simp add: connecting_openssl_def)
next
  case True
  with assms obtain c es1 where es: "es = c # es1"
    by (cases es) (simp_all add: connecting_openssl_def)
  let ?t1 = "engine_openssl c t"
  have i1: "mInBio ?t1 = mInBio t \<and> mIncomingQueue ?t1 = mIncomingQueue t"
    by (rule engine_openssl_input)
  obtain x t2 where fl: "flushOutput ?t1 = (x, t2)" by (cases "flushOutput ?t1")
  from flushOutput_input [OF fl] i1
  have i2: "mInBio t2 = mInBio t \<and> mIncomingQueue t2 = mIncomingQueue t" by simp
  have i3: "mInBio (postHandshake (changeState Connected t2)) = mInBio t \<and>
            mIncomingQueue (postHandshake (changeState Connected t2)) = mIncomingQueue t"
    using i2 by (simp add: postHandshake_def changeState_def)
  from assms True es fl have "t' = ?t1 \<or> t' = t2 \<or> t' = postHandshake (changeState Connected t2)"
    by (simp add: connecting_openssl_def Let_def
        split: sum.splits bool.splits if_splits)
  with i1 i2 i3 show ?thesis by auto
qed

lemma connected_openssl_input:
  "connected_openssl es t = Some (f, es', t') \<Longrightarrow>
     mInBio t' = mInBio t \<and> mIncomingQueue t' = mIncomingQueue t"
  unfolding connected_openssl_def
  by (auto split: if_splits option.splits sum.splits bool.splits
      dest!: ssl_read_openssl_input)

lemma input_openssl_input:
  "mInBio (input_openssl m t) = mInBio t @ m \<and>
   mIncomingQueue (input_openssl m t) = mIncomingQueue t"
  by (simp add: input_openssl_def BIO_write_def recv_def)

lemma process_openssl_input:
  "process_openssl q es t = Some (f, es', t') \<Longrightarrow> mIncomingQueue t = q \<Longrightarrow>
     \<exists>consumed. q = consumed @ mIncomingQueue t' \<and> mInBio t' = mInBio t @ concat consumed"
proof (induction q arbitrary: es t)
  case Nil
  then have "t' = t" by (auto split: if_splits)
  with Nil show ?case by simp
next
  case (Cons m q)
  show ?case
  proof (cases "queue_running t")
    case False
    with Cons.prems have "t' = t" by simp
    with Cons.prems have "m # q = [] @ mIncomingQueue t' \<and> mInBio t' = mInBio t @ concat []"
      by simp
    then show ?thesis by blast
  next
    case True
    let ?t2 = "input_openssl m (t\<lparr>mIncomingQueue := q\<rparr>)"
    have i2: "mInBio ?t2 = mInBio t @ m \<and> mIncomingQueue ?t2 = q"
      using input_openssl_input [of m "t\<lparr>mIncomingQueue := q\<rparr>"] by simp
    from True Cons.prems obtain g es3 t3 where c1: "connecting_openssl es ?t2 = Some (g, es3, t3)"
      by (auto simp: Let_def split: option.splits)
    from connecting_openssl_input [OF c1] i2
    have i3: "mInBio t3 = mInBio t @ m \<and> mIncomingQueue t3 = q" by simp
    have one: "\<And>u. mInBio u = mInBio t @ m \<and> mIncomingQueue u = q \<Longrightarrow>
       m # q = [m] @ mIncomingQueue u \<and> mInBio u = mInBio t @ concat [m]"
      by simp
    show ?thesis
    proof (cases "g = Next")
      case False
      with True Cons.prems c1 have "t' = t3" by (auto simp: Let_def split: flow.splits)
      with one [OF i3] show ?thesis by blast
    next
      case g: True
      from True Cons.prems c1 g obtain h es4 t4 where c2: "connected_openssl es3 t3 = Some (h, es4, t4)"
        by (auto simp: Let_def split: option.splits)
      from connected_openssl_input [OF c2] i3
      have i4: "mInBio t4 = mInBio t @ m \<and> mIncomingQueue t4 = q" by simp
      show ?thesis
      proof (cases "h = Next")
        case False
        with True Cons.prems c1 c2 g have "t' = t4" by (auto simp: Let_def split: flow.splits)
        with one [OF i4] show ?thesis by blast
      next
        case h: True
        with True Cons.prems c1 c2 g have "process_openssl q es4 t4 = Some (f, es', t')"
          by (simp add: Let_def)
        from Cons.IH [OF this] i4 obtain consumed where
          "q = consumed @ mIncomingQueue t'" "mInBio t' = mInBio t4 @ concat consumed"
          by blast
        with i4 have "m # q = (m # consumed) @ mIncomingQueue t' \<and>
          mInBio t' = mInBio t @ concat (m # consumed)"
          by simp
        then show ?thesis by blast
      qed
    qed
  qed
qed






lemma engine_openssl_received [simp]: "received (engine_openssl c t) = received t"
  by (simp add: engine_openssl_def InfoCallback_def queue_stop_def Let_def)










section \<open>The variants compared\<close>

text \<open>
  Claim C8. The variants are not substitutable: on the same operations (start, the
  peer's handshake bytes, the task that completes the handshake, closure of the lower
  transport, the task that resolves it, then one more \<^verbatim>\<open>stop\<close> and its task) the GnuTLS
  variant reports a fourth transition, to \<open>Failed\<close>, where the MbedTLS and OpenSSL variants
  stay \<open>Disconnected\<close>: the GnuTLS \<^verbatim>\<open>doRecv\<close> has no check of the state at its start.
  The upward deliveries are the same.
\<close>

theorem variants_differ:
  "map_option (\<lambda>t. (state t, notified t, received t))
     (exec_gnutls
        [Start [], Incoming (Some [22, 3, 3]),
         Task [([Push [22], Pull 5], GNUTLS_OK []), ([Pull 5], GNUTLS_E_AGAIN)],
         Incoming None, Task [([Pull 5], GNUTLS_OK []), ([Push [21]], GNUTLS_OK [])],
         Stop, Task [([], GNUTLS_OK [])]] fresh)
     = Some (Failed, [Connecting, Connected, Disconnected, Failed], [None]) \<and>
   map_option (\<lambda>t. (state t, notified t, received t))
     (exec_mbedtls
        [Start [], Incoming (Some [22, 3, 3]),
         Task [([BioSend [22], BioRecv 5], MBEDTLS_OK []),
               ([BioRecv 5], MBEDTLS_ERR_SSL_WANT_READ)],
         Incoming None, Task [([BioRecv 5], MBEDTLS_OK [])],
         Stop, Task []] fresh)
     = Some (Disconnected, [Connecting, Connected, Disconnected], [None]) \<and>
   map_option (\<lambda>t. (state t, notified t, received t))
     (exec_openssl
        [Start [Call False [22] SSL_ERROR_WANT_READ False], Incoming (Some [22, 3, 3]),
         Task [Call False [] SSL_ERROR_NONE True, Call False [] SSL_ERROR_WANT_READ True],
         Incoming None, Task [Call False [] SSL_ERROR_NONE True],
         Stop, Task []] fresh)
     = Some (Disconnected, [Connecting, Connected, Disconnected], [None])"
  by (simp add: run_defs)

lemma send_passes_through:
  assumes "state t = Connected" and "p = None \<or> p = Some []"
  shows "send_gnutls p eg t = Some (outgoing_gnutls p t) \<and>
         send_mbedtls p em t = Some (outgoing_gnutls p t) \<and>
         map_option fst (send_openssl p eo t) = Some (fst (outgoing_gnutls p t)) \<and>
         map_option (\<lambda>x. sent (snd x)) (send_openssl p eo t) = Some (sent (snd (outgoing_gnutls p t)))"
  using assms
  by (auto simp: send_gnutls_def send_mbedtls_def send_openssl_def outgoing_gnutls_def
      outgoing_mbedtls_def outgoing_openssl_def Transport_outgoing_def Let_def
      split: reply.splits)

lemma ReadCallback_same_effect: "snd (ReadCallback_gnutls n t) = snd (ReadCallback_mbedtls n t)"
  by (simp add: ReadCallback_gnutls_def ReadCallback_mbedtls_def Let_def split: option.splits)

text \<open>
  What the variants share. The three variants agree on \<^verbatim>\<open>stop\<close>, on \<^verbatim>\<open>incoming\<close>, on the
  terminal resolution, on the rejection of \<^verbatim>\<open>send\<close> outside \<open>Connected\<close> and on the result
  and the message handed down when \<^verbatim>\<open>send\<close> passes an absent or empty message through;
  GnuTLS and MbedTLS agree on \<^verbatim>\<open>start\<close> and on what the read callback does to the
  instance; MbedTLS and OpenSSL agree on a task that finds the instance neither
  \<open>Connecting\<close> nor \<open>Connected\<close>.
\<close>

lemma variants_agree:
  "stop_gnutls t = stop_mbedtls t \<and> stop_mbedtls t = stop_openssl t \<and>
   incoming_gnutls p t = incoming_mbedtls p t \<and> incoming_mbedtls p t = incoming_openssl p t \<and>
   resolve_gnutls t = resolve_mbedtls t \<and> resolve_mbedtls t = resolve_openssl t \<and>
   start_gnutls t = start_mbedtls t \<and>
   snd (ReadCallback_gnutls n t) = snd (ReadCallback_mbedtls n t) \<and>
   (state t \<noteq> Connected \<longrightarrow>
      send_gnutls p eg t = send_mbedtls p em t \<and> send_mbedtls p em t = send_openssl p eo t) \<and>
   (state t = Connected \<and> (p = None \<or> p = Some []) \<longrightarrow>
      send_gnutls p eg t = send_mbedtls p em t \<and>
      map_option fst (send_openssl p eo t) = map_option fst (send_gnutls p eg t) \<and>
      map_option (\<lambda>x. sent (snd x)) (send_openssl p eo t)
        = map_option (\<lambda>x. sent (snd x)) (send_gnutls p eg t)) \<and>
   (state t \<noteq> Connecting \<and> state t \<noteq> Connected \<longrightarrow>
      doRecv_mbedtls em t = doRecv_openssl eo t)"
proof (intro conjI impI)
  show "stop_gnutls t = stop_mbedtls t" by (simp add: stop_gnutls_def stop_mbedtls_def)
  show "stop_mbedtls t = stop_openssl t" by (simp add: stop_mbedtls_def stop_openssl_def)
  show "incoming_gnutls p t = incoming_mbedtls p t"
    by (simp add: incoming_gnutls_def incoming_mbedtls_def)
  show "incoming_mbedtls p t = incoming_openssl p t"
    by (simp add: incoming_mbedtls_def incoming_openssl_def)
  show "resolve_gnutls t = resolve_mbedtls t" by (simp add: resolve_mbedtls_eq)
  show "resolve_mbedtls t = resolve_openssl t"
    by (simp add: resolve_mbedtls_eq resolve_openssl_eq)
  show "start_gnutls t = start_mbedtls t" by (simp add: start_gnutls_def start_mbedtls_def)
  show "snd (ReadCallback_gnutls n t) = snd (ReadCallback_mbedtls n t)"
    by (rule ReadCallback_same_effect)
next
  assume "state t \<noteq> Connected"
  then show "send_gnutls p eg t = send_mbedtls p em t" "send_mbedtls p em t = send_openssl p eo t"
    by (simp_all add: send_gnutls_def send_mbedtls_def send_openssl_def)
next
  assume a: "state t = Connected \<and> (p = None \<or> p = Some [])"
  from a have c: "state t = Connected" and e: "p = None \<or> p = Some []" by simp_all
  from send_passes_through [OF c e, of eg em eo]
  show "send_gnutls p eg t = send_mbedtls p em t"
    "map_option fst (send_openssl p eo t) = map_option fst (send_gnutls p eg t)"
    "map_option (\<lambda>x. sent (snd x)) (send_openssl p eo t)
        = map_option (\<lambda>x. sent (snd x)) (send_gnutls p eg t)"
    by simp_all
next
  assume "state t \<noteq> Connecting \<and> state t \<noteq> Connected"
  then show "doRecv_mbedtls em t = doRecv_openssl eo t"
    by (simp add: doRecv_mbedtls_def doRecv_openssl_def body_mbedtls_def body_openssl_def Let_def)
qed

lemma variants_agree_example:
  "state fresh \<noteq> Connected \<and> state fresh \<noteq> Connecting \<and>
   send_gnutls (Some [1]) [] fresh = send_openssl (Some [1]) [] fresh \<and>
   doRecv_mbedtls [] fresh = doRecv_openssl [] fresh \<and>
   state (fresh\<lparr>state := Connected\<rparr>) = Connected \<and>
   send_gnutls None [] (fresh\<lparr>state := Connected\<rparr>)
     = send_mbedtls None [] (fresh\<lparr>state := Connected\<rparr>) \<and>
   map_option fst (send_openssl None [] (fresh\<lparr>state := Connected\<rparr>)) = Some (Inr True) \<and>
   map_option fst (send_gnutls None [] (fresh\<lparr>state := Connected\<rparr>)) = Some (Inr True) \<and>
   stop_gnutls fresh = stop_openssl fresh"
proof -
  have a: "state fresh \<noteq> Connected" "state fresh \<noteq> Connecting"
    by (simp_all add: run_defs)
  have b: "state (fresh\<lparr>state := Connected\<rparr>) = Connected" by simp
  have c: "map_option fst (send_gnutls None [] (fresh\<lparr>state := Connected\<rparr>)) = Some (Inr True)"
    by (simp add: run_defs)
  from a b c
    variants_agree [of fresh "Some [1]" 0 "[]" "[]" "[]"]
    variants_agree [of "fresh\<lparr>state := Connected\<rparr>" None 0 "[]" "[]" "[]"]
  show ?thesis by simp
qed

end
